theory Spec2Isabelle
  imports Main "HOL-Library.AList" "HOL-Library.Sublist"
begin

section \<open>The custom dependency-injection container\<close>

text \<open>
  The development embeds the class \<open>DIContainer\<close> of the custom DI framework and the
  \<open>main\<close> function that uses it.  The container keeps one member,
  \<^verbatim>\<open>std::map<std::string, std::function<std::shared_ptr<void>()>> creators_\<close>,
  and has three member templates: \<open>registerType<T>\<close>,
  \<open>registerTypeWithDependencies<T, Args...>\<close> and \<open>resolve<T>\<close>.

  Two things the C++ text leaves to the language implementation are parameters of the
  model, so that every theorem says for which implementations it holds:
  \<^item> \<open>nm\<close>, the function \<open>T \<mapsto> typeid(T).name()\<close>.  The standard calls the string
    implementation-defined and does not promise that two types have two names.
  \<^item> \<open>ord\<close>, the order in which the arguments of the call
    \<^verbatim>\<open>std::make_shared<T>(resolve<Args>()...)\<close> are evaluated.  The arguments of a
    function call are indeterminately sequenced: each \<open>resolve\<close> runs to its end before
    the next one starts, and which one runs first is the compiler's choice.
\<close>

subsection \<open>Errors, handles and objects\<close>

text \<open>The only exception of the source: \<^verbatim>\<open>throw std::runtime_error("...")\<close>.\<close>

datatype error = runtime_error string

definition UnregisteredType :: error where
  "UnregisteredType = runtime_error ''Type not registered in DI container.''"

text \<open>
  A \<open>std::shared_ptr\<close> is either null or owns an object.  Objects are identified by the
  index of their allocation: two handles are the same object exactly when they carry the
  same index.  An object remembers the class that \<open>std::make_shared<T>\<close> built and the
  handles its constructor received.
\<close>

datatype handle = Null | Ptr nat

datatype 't object = Object 't "handle list"

type_synonym 't heap = "'t object list"

definition make_shared :: "'t heap \<Rightarrow> 't \<Rightarrow> handle list \<Rightarrow> 't heap \<times> handle" where
  "make_shared h T args = (h @ [Object T args], Ptr (length h))"

text \<open>
  The outcome of a call: \<open>None\<close> when the recursion does not come back within the
  given depth, \<open>Some (Inl e)\<close> when it throws \<open>e\<close>, \<open>Some (Inr v)\<close> when it returns \<open>v\<close>.
\<close>

type_synonym 'a outcome = "(error + 'a) option"

subsection \<open>The registry\<close>

text \<open>
  The two lambdas stored in \<open>creators_\<close>, as data: the closure of \<open>registerType<T>\<close>
  and the closure of \<open>registerTypeWithDependencies<T, Args...>\<close>.  Both capture \<open>this\<close>
  only; the program never copies or moves its container, so \<open>this\<close> is the container the
  closure is stored in.
\<close>

datatype 't creator = Creator 't | CreatorWithDependencies 't "'t list"

text \<open>
  \<open>std::map\<close> as the list of its entries; \<open>creators_[k] = f\<close> is \<open>AList.update k f\<close>
  (the entry of \<open>k\<close> is replaced where there is one, added otherwise) and
  \<open>creators_.find(k)\<close> is \<open>map_of\<close>.
\<close>

record 't DIContainer =
  creators :: "(string \<times> 't creator) list"

definition DIContainer_new :: "'t DIContainer" where
  "DIContainer_new = \<lparr>creators = []\<rparr>"

definition registerType :: "('t \<Rightarrow> string) \<Rightarrow> 't DIContainer \<Rightarrow> 't \<Rightarrow> 't DIContainer" where
  "registerType nm c T = c\<lparr>creators := AList.update (nm T) (Creator T) (creators c)\<rparr>"

definition registerTypeWithDependencies ::
  "('t \<Rightarrow> string) \<Rightarrow> 't DIContainer \<Rightarrow> 't \<Rightarrow> 't list \<Rightarrow> 't DIContainer" where
  "registerTypeWithDependencies nm c T Args =
     c\<lparr>creators := AList.update (nm T) (CreatorWithDependencies T Args) (creators c)\<rparr>"

subsection \<open>Evaluating the arguments of \<open>make_shared\<close>\<close>

text \<open>
  An evaluation order gives every position \<open>i\<close> of a call with \<open>n\<close> arguments a
  priority \<open>ord n i\<close>; the argument of least priority is evaluated first, and arguments
  of equal priority in their written order.  Every order of the \<open>n\<close> arguments is the
  order of some \<open>ord\<close>, and every \<open>ord\<close> gives an order of all \<open>n\<close> arguments.
\<close>

type_synonym arg_order = "nat \<Rightarrow> nat \<Rightarrow> nat"

definition left_to_right :: arg_order where
  "left_to_right n i = i"

definition right_to_left :: arg_order where
  "right_to_left n i = n - i"

definition evaluation_order :: "arg_order \<Rightarrow> 't list \<Rightarrow> (nat \<times> 't) list" where
  "evaluation_order ord Args =
     sort_key (\<lambda>(i, D). ord (length Args) i) (zip [0..<length Args] Args)"

text \<open>
  The calls \<open>resolve<D>()\<close> of the arguments, one after the other in the given
  sequence, each on the heap the one before left.  \<open>r\<close> is \<open>resolve\<close>; an exception of
  one call ends the evaluation.
\<close>

fun resolve_each ::
  "('t heap \<Rightarrow> 't \<Rightarrow> ('t heap \<times> handle) outcome) \<Rightarrow> 't heap \<Rightarrow> (nat \<times> 't) list
     \<Rightarrow> ('t heap \<times> (nat \<times> handle) list) outcome" where
  "resolve_each r h [] = Some (Inr (h, []))"
| "resolve_each r h ((i, D) # rest) =
     (case r h D of
        None \<Rightarrow> None
      | Some (Inl e) \<Rightarrow> Some (Inl e)
      | Some (Inr (h1, p)) \<Rightarrow>
          (case resolve_each r h1 rest of
             None \<Rightarrow> None
           | Some (Inl e) \<Rightarrow> Some (Inl e)
           | Some (Inr (h2, ps)) \<Rightarrow> Some (Inr (h2, (i, p) # ps))))"

text \<open>The values of the arguments, put back at their written positions.\<close>

definition resolve_args ::
  "('t heap \<Rightarrow> 't \<Rightarrow> ('t heap \<times> handle) outcome) \<Rightarrow> arg_order \<Rightarrow> 't heap \<Rightarrow> 't list
     \<Rightarrow> ('t heap \<times> handle list) outcome" where
  "resolve_args r ord h Args =
     (case resolve_each r h (evaluation_order ord Args) of
        None \<Rightarrow> None
      | Some (Inl e) \<Rightarrow> Some (Inl e)
      | Some (Inr (h', ps)) \<Rightarrow> Some (Inr (h', map snd (sort_key fst ps))))"

subsection \<open>Invoking a factory, and \<open>resolve\<close>\<close>

fun invoke ::
  "('t heap \<Rightarrow> 't \<Rightarrow> ('t heap \<times> handle) outcome) \<Rightarrow> arg_order \<Rightarrow> 't heap \<Rightarrow> 't creator
     \<Rightarrow> ('t heap \<times> handle) outcome" where
  "invoke r ord h (Creator T) = Some (Inr (make_shared h T []))"
| "invoke r ord h (CreatorWithDependencies T Args) =
     (case resolve_args r ord h Args of
        None \<Rightarrow> None
      | Some (Inl e) \<Rightarrow> Some (Inl e)
      | Some (Inr (h', ps)) \<Rightarrow> Some (Inr (make_shared h' T ps)))"

text \<open>
  \<open>resolve<T>()\<close>.  The first argument bounds the depth of the nested \<open>resolve\<close> calls:
  \<open>resolve n\<close> is \<open>None\<close> when the call needs more than \<open>n\<close> nested activations.  A call
  that is \<open>None\<close> for every \<open>n\<close> never returns and never throws.
  \<open>std::static_pointer_cast<T>\<close> changes the static type of the handle only.
\<close>

primrec resolve ::
  "nat \<Rightarrow> ('t \<Rightarrow> string) \<Rightarrow> arg_order \<Rightarrow> 't DIContainer \<Rightarrow> 't heap \<Rightarrow> 't
     \<Rightarrow> ('t heap \<times> handle) outcome" where
  "resolve 0 nm ord c h T = None"
| "resolve (Suc n) nm ord c h T =
     (case map_of (creators c) (nm T) of
        Some creator \<Rightarrow> invoke (resolve n nm ord c) ord h creator
      | None \<Rightarrow> Some (Inl UnregisteredType))"

subsection \<open>The program\<close>

text \<open>The classes of \<open>MVC.h\<close>.\<close>

datatype cls = Logger | Configuration | Model | View | Controller

text \<open>The five registrations of \<open>main\<close>.\<close>

definition main_container :: "(cls \<Rightarrow> string) \<Rightarrow> cls DIContainer" where
  "main_container nm =
     registerTypeWithDependencies nm
       (registerType nm (registerType nm (registerType nm (registerType nm
          DIContainer_new Logger) Model) View) Configuration)
       Controller [Model, View, Logger]"

text \<open>The values of the local variables of \<open>main\<close> after its five \<open>resolve\<close> calls.\<close>

record main_locals =
  config :: handle
  logger :: handle
  model :: handle
  view :: handle
  controller :: handle

text \<open>
  \<open>main\<close> up to the last \<open>resolve\<close>; the two statements after it write to and read from
  the console.  No exception is caught: the first one ends the program.
\<close>

definition main :: "nat \<Rightarrow> (cls \<Rightarrow> string) \<Rightarrow> arg_order \<Rightarrow> (cls heap \<times> main_locals) outcome" where
  "main n nm ord =
     (let container = main_container nm in
      case resolve n nm ord container [] Configuration of
        None \<Rightarrow> None | Some (Inl e) \<Rightarrow> Some (Inl e)
      | Some (Inr (h1, p1)) \<Rightarrow>
      (case resolve n nm ord container h1 Logger of
        None \<Rightarrow> None | Some (Inl e) \<Rightarrow> Some (Inl e)
      | Some (Inr (h2, p2)) \<Rightarrow>
      (case resolve n nm ord container h2 Model of
        None \<Rightarrow> None | Some (Inl e) \<Rightarrow> Some (Inl e)
      | Some (Inr (h3, p3)) \<Rightarrow>
      (case resolve n nm ord container h3 View of
        None \<Rightarrow> None | Some (Inl e) \<Rightarrow> Some (Inl e)
      | Some (Inr (h4, p4)) \<Rightarrow>
      (case resolve n nm ord container h4 Controller of
        None \<Rightarrow> None | Some (Inl e) \<Rightarrow> Some (Inl e)
      | Some (Inr (h5, p5)) \<Rightarrow>
          Some (Inr (h5, \<lparr>config = p1, logger = p2, model = p3,
                          view = p4, controller = p5\<rparr>)))))))"

text \<open>
  The names \<open>typeid(T).name()\<close> has for the five classes under the Itanium C++ ABI
  (GCC and Clang): the length of the class name, then the class name.
\<close>

fun itanium_name :: "cls \<Rightarrow> string" where
  "itanium_name Logger = ''6Logger''"
| "itanium_name Configuration = ''13Configuration''"
| "itanium_name Model = ''5Model''"
| "itanium_name View = ''4View''"
| "itanium_name Controller = ''10Controller''"

subsection \<open>The lifetime of a container\<close>

text \<open>
  \<open>resolve\<close> reads \<open>creators_\<close> and never writes it.  The registry of a container is
  therefore, at every moment, the result of the registration calls made on it so far, in
  the order they were made, starting from the empty map of the constructor.
\<close>

datatype 't registration = RegisterType 't | RegisterTypeWithDependencies 't "'t list"

fun register :: "('t \<Rightarrow> string) \<Rightarrow> 't DIContainer \<Rightarrow> 't registration \<Rightarrow> 't DIContainer" where
  "register nm c (RegisterType T) = registerType nm c T"
| "register nm c (RegisterTypeWithDependencies T Args) =
     registerTypeWithDependencies nm c T Args"

definition registrations :: "('t \<Rightarrow> string) \<Rightarrow> 't registration list \<Rightarrow> 't DIContainer" where
  "registrations nm rs = foldl (register nm) DIContainer_new rs"

subsection \<open>The dependency graph of a registry\<close>

text \<open>
  What \<open>resolve<T>\<close> goes on to resolve: the template arguments \<open>Args...\<close> of the closure
  stored under the key of \<open>T\<close>.
\<close>

definition dependencies :: "('t \<Rightarrow> string) \<Rightarrow> 't DIContainer \<Rightarrow> 't \<Rightarrow> 't list" where
  "dependencies nm c T =
     (case map_of (creators c) (nm T) of
        Some (CreatorWithDependencies U Args) \<Rightarrow> Args
      | _ \<Rightarrow> [])"

definition depends :: "('t \<Rightarrow> string) \<Rightarrow> 't DIContainer \<Rightarrow> ('t \<times> 't) set" where
  "depends nm c = {(T, D). D \<in> set (dependencies nm c T)}"

definition registered :: "('t \<Rightarrow> string) \<Rightarrow> 't DIContainer \<Rightarrow> 't \<Rightarrow> bool" where
  "registered nm c T = (map_of (creators c) (nm T) \<noteq> None)"

text \<open>
  \<open>T\<close> is transitively registered: \<open>T\<close> and every type that \<open>T\<close> depends on, directly or
  through other types, has a factory.
\<close>

definition registered_from :: "('t \<Rightarrow> string) \<Rightarrow> 't DIContainer \<Rightarrow> 't \<Rightarrow> bool" where
  "registered_from nm c T = (\<forall>U. (T, U) \<in> (depends nm c)\<^sup>* \<longrightarrow> registered nm c U)"

text \<open>The part of the dependency graph that can be reached from \<open>T\<close> has no cycle.\<close>

definition acyclic_from :: "('t \<Rightarrow> string) \<Rightarrow> 't DIContainer \<Rightarrow> 't \<Rightarrow> bool" where
  "acyclic_from nm c T =
     (\<forall>U. (T, U) \<in> (depends nm c)\<^sup>* \<longrightarrow> (U, U) \<notin> (depends nm c)\<^sup>+)"

subsection \<open>Registries of the scenarios\<close>

text \<open>\<open>Controller\<close> is registered with its three dependencies, \<open>Logger\<close> never is.\<close>

definition no_logger :: "(cls \<Rightarrow> string) \<Rightarrow> cls DIContainer" where
  "no_logger nm =
     registerTypeWithDependencies nm
       (registerType nm (registerType nm DIContainer_new Model) View)
       Controller [Model, View, Logger]"

text \<open>
  Every class that \<open>Controller\<close> needs is registered, and \<open>View\<close> is registered as needing
  a \<open>Controller\<close>.
\<close>

definition view_needs_controller :: "(cls \<Rightarrow> string) \<Rightarrow> cls DIContainer" where
  "view_needs_controller nm =
     registerTypeWithDependencies nm
       (registerTypeWithDependencies nm (registerType nm (registerType nm
          DIContainer_new Logger) Model) View [Controller])
       Controller [Model, View, Logger]"


subsection \<open>The dependencies in declared order\<close>

text \<open>
  The reading of the specification, to compare \<open>resolve_args\<close> with: the dependencies
  are resolved from the first declared to the last, each on the heap the one before left,
  and their values are passed on in that order.
\<close>

fun resolve_in_declared_order ::
  "('t heap \<Rightarrow> 't \<Rightarrow> ('t heap \<times> handle) outcome) \<Rightarrow> 't heap \<Rightarrow> 't list
     \<Rightarrow> ('t heap \<times> handle list) outcome" where
  "resolve_in_declared_order r h [] = Some (Inr (h, []))"
| "resolve_in_declared_order r h (D # Ds) =
     (case r h D of
        None \<Rightarrow> None
      | Some (Inl e) \<Rightarrow> Some (Inl e)
      | Some (Inr (h1, p)) \<Rightarrow>
          (case resolve_in_declared_order r h1 Ds of
             None \<Rightarrow> None
           | Some (Inl e) \<Rightarrow> Some (Inl e)
           | Some (Inr (h2, ps)) \<Rightarrow> Some (Inr (h2, p # ps))))"

subsection \<open>Type names\<close>




section \<open>Properties of the operations\<close>

subsection \<open>Registration and lookup\<close>

lemma find_registerType:
  "map_of (creators (registerType nm c T)) k =
     (if k = nm T then Some (Creator T) else map_of (creators c) k)"
  by (simp add: registerType_def update_conv')

lemma find_registerTypeWithDependencies:
  "map_of (creators (registerTypeWithDependencies nm c T Args)) k =
     (if k = nm T then Some (CreatorWithDependencies T Args) else map_of (creators c) k)"
  by (simp add: registerTypeWithDependencies_def update_conv')

lemma find_registerType_same:
  "map_of (creators (registerType nm c T)) (nm T) = Some (Creator T)"
  by (simp add: find_registerType)

lemma find_registerTypeWithDependencies_same:
  "map_of (creators (registerTypeWithDependencies nm c T Args)) (nm T) =
     Some (CreatorWithDependencies T Args)"
  by (simp add: find_registerTypeWithDependencies)

lemma foldl_registerType_other:
  "k \<notin> nm ` set Ds \<Longrightarrow>
   map_of (creators (foldl (registerType nm) c Ds)) k = map_of (creators c) k"
  by (induction Ds arbitrary: c) (simp_all add: find_registerType)

lemma foldl_registerType_find:
  "k \<in> nm ` set Ds \<Longrightarrow> \<exists>U. map_of (creators (foldl (registerType nm) c Ds)) k = Some (Creator U)"
proof (induction Ds arbitrary: c)
  case Nil
  then show ?case by simp
next
  case (Cons D Ds)
  show ?case
  proof (cases "k \<in> nm ` set Ds")
    case True
    then show ?thesis by (simp add: Cons.IH)
  next
    case False
    with Cons.prems have "k = nm D" by simp
    with False show ?thesis by (simp add: foldl_registerType_other find_registerType)
  qed
qed





subsection \<open>One call of \<open>resolve\<close>\<close>

lemma resolve_Creator:
  "map_of (creators c) (nm T) = Some (Creator U) \<Longrightarrow>
   resolve (Suc n) nm ord c h T = Some (Inr (h @ [Object U []], Ptr (length h)))"
  by (simp add: make_shared_def)

lemma resolve_no_creator:
  "map_of (creators c) (nm T) = None \<Longrightarrow> resolve (Suc n) nm ord c h T = Some (Inl UnregisteredType)"
  by simp

lemma resolve_returns_found:
  "resolve n nm ord c h T = Some (Inr v) \<Longrightarrow> map_of (creators c) (nm T) \<noteq> None"
  by (cases n) (auto split: option.splits)

lemma evaluation_order_types: "snd ` set (evaluation_order ord Args) = set Args"
proof -
  have "map snd (zip [0..<length Args] Args) = Args"
    by (simp add: map_snd_zip)
  then have "snd ` set (zip [0..<length Args] Args) = set Args"
    by (metis set_map)
  then show ?thesis by (simp add: evaluation_order_def)
qed

text \<open>A deeper bound changes no outcome that a smaller bound already gives.\<close>

lemma resolve_each_mono:
  assumes "\<And>h D v. r h D = Some v \<Longrightarrow> r' h D = Some v"
  shows "resolve_each r h xs = Some v \<Longrightarrow> resolve_each r' h xs = Some v"
proof (induction xs arbitrary: h v)
  case Nil
  then show ?case by simp
next
  case (Cons x xs)
  obtain i D where x: "x = (i, D)" by (cases x)
  from Cons.prems obtain w where w: "r h D = Some w"
    by (auto simp: x split: option.splits)
  then have w': "r' h D = Some w" by (rule assms)
  show ?case
  proof (cases w)
    case (Inl e)
    with Cons.prems w w' show ?thesis by (simp add: x)
  next
    case (Inr hp)
    obtain h1 p where hp: "hp = (h1, p)" by (cases hp)
    from Cons.prems w Inr hp obtain u where u: "resolve_each r h1 xs = Some u"
      by (auto simp: x split: option.splits)
    have "resolve_each r' h1 xs = Some u" by (rule Cons.IH[OF u])
    with Cons.prems w w' Inr hp u show ?thesis by (simp add: x)
  qed
qed

lemma invoke_mono:
  assumes "\<And>h D v. r h D = Some v \<Longrightarrow> r' h D = Some v"
  shows "invoke r ord h cr = Some v \<Longrightarrow> invoke r' ord h cr = Some v"
proof (cases cr)
  case (Creator T)
  then show "invoke r ord h cr = Some v \<Longrightarrow> invoke r' ord h cr = Some v" by simp
next
  case (CreatorWithDependencies T Args)
  assume a: "invoke r ord h cr = Some v"
  then obtain u where u: "resolve_each r h (evaluation_order ord Args) = Some u"
    by (auto simp: CreatorWithDependencies resolve_args_def split: option.splits)
  have "resolve_each r' h (evaluation_order ord Args) = Some u"
    by (rule resolve_each_mono[where r = r, OF assms u])
  with a u show "invoke r' ord h cr = Some v"
    by (simp add: CreatorWithDependencies resolve_args_def)
qed

lemma resolve_Suc_mono:
  "resolve n nm ord c h T = Some v \<Longrightarrow> resolve (Suc n) nm ord c h T = Some v"
proof (induction n arbitrary: h T v)
  case 0
  then show ?case by simp
next
  case (Suc n)
  show ?case
  proof (cases "map_of (creators c) (nm T)")
    case None
    with Suc.prems show ?thesis by simp
  next
    case (Some cr)
    with Suc.prems have "invoke (resolve n nm ord c) ord h cr = Some v" by simp
    then have "invoke (resolve (Suc n) nm ord c) ord h cr = Some v"
      by (rule invoke_mono[rotated]) (rule Suc.IH)
    with Some show ?thesis by simp
  qed
qed

lemma resolve_mono:
  "resolve n nm ord c h T = Some v \<Longrightarrow> n \<le> m \<Longrightarrow> resolve m nm ord c h T = Some v"
  by (induction m) (auto simp: le_Suc_eq resolve_Suc_mono simp del: resolve.simps)

text \<open>What the calls for the arguments say about the calls for each dependency.\<close>

lemma resolve_each_returns:
  "resolve_each r h xs = Some (Inr (h', ps)) \<Longrightarrow> (i, D) \<in> set xs \<Longrightarrow>
   \<exists>h1 h2 p. r h1 D = Some (Inr (h2, p))"
proof (induction xs arbitrary: h h' ps)
  case Nil
  then show ?case by simp
next
  case (Cons x xs)
  obtain j E where x: "x = (j, E)" by (cases x)
  from Cons.prems(1) obtain h1 p where 1: "r h E = Some (Inr (h1, p))"
    by (auto simp: x split: option.splits sum.splits)
  with Cons.prems(1) obtain h2 qs where 2: "resolve_each r h1 xs = Some (Inr (h2, qs))"
    by (auto simp: x split: option.splits sum.splits)
  from Cons.prems(2) consider "(i, D) = (j, E)" | "(i, D) \<in> set xs" by (auto simp: x)
  then show ?case
  proof cases
    case 1
    with \<open>r h E = Some (Inr (h1, p))\<close> show ?thesis by blast
  next
    case 2
    with Cons.IH[OF \<open>resolve_each r h1 xs = Some (Inr (h2, qs))\<close>] show ?thesis by blast
  qed
qed

lemma resolve_each_throws:
  "resolve_each r h xs = Some (Inl e) \<Longrightarrow> \<exists>i D h1. (i, D) \<in> set xs \<and> r h1 D = Some (Inl e)"
proof (induction xs arbitrary: h)
  case Nil
  then show ?case by simp
next
  case (Cons x xs)
  obtain j E where x: "x = (j, E)" by (cases x)
  show ?case
  proof (cases "r h E = Some (Inl e)")
    case True
    then show ?thesis by (auto simp: x)
  next
    case False
    with Cons.prems obtain h1 p where "r h E = Some (Inr (h1, p))"
      and "resolve_each r h1 xs = Some (Inl e)"
      by (auto simp: x split: option.splits sum.splits)
    from Cons.IH[OF this(2)] show ?thesis by auto
  qed
qed

lemma resolve_each_comes_back:
  "(\<And>h D. D \<in> snd ` set xs \<Longrightarrow> r h D \<noteq> None) \<Longrightarrow> resolve_each r h xs \<noteq> None"
proof (induction xs arbitrary: h)
  case Nil
  then show ?case by simp
next
  case (Cons x xs)
  obtain j E where x: "x = (j, E)" by (cases x)
  have 1: "r h E \<noteq> None" by (rule Cons.prems) (simp add: x)
  have 2: "resolve_each r h1 xs \<noteq> None" for h1
    by (rule Cons.IH) (rule Cons.prems, simp)
  show ?case
  proof (cases "r h E")
    case None
    with 1 show ?thesis by simp
  next
    case (Some w)
    show ?thesis
    proof (cases w)
      case (Inl e)
      with Some show ?thesis by (simp add: x)
    next
      case (Inr hp)
      obtain h1 p where "hp = (h1, p)" by (cases hp)
      with Some Inr 2[of h1] show ?thesis
        by (auto simp: x split: sum.splits)
    qed
  qed
qed

lemma resolve_each_all_return:
  "(\<And>h D. D \<in> snd ` set xs \<Longrightarrow> \<exists>v. r h D = Some (Inr v)) \<Longrightarrow>
   \<exists>v. resolve_each r h xs = Some (Inr v)"
proof (induction xs arbitrary: h)
  case Nil
  then show ?case by simp
next
  case (Cons x xs)
  obtain j E where x: "x = (j, E)" by (cases x)
  have "\<exists>v. r h E = Some (Inr v)" by (rule Cons.prems) (simp add: x)
  then obtain h1 p where 1: "r h E = Some (Inr (h1, p))" by auto
  have "\<exists>v. resolve_each r h1 xs = Some (Inr v)"
    by (rule Cons.IH) (rule Cons.prems, simp)
  then obtain h2 ps where "resolve_each r h1 xs = Some (Inr (h2, ps))" by auto
  with 1 show ?case by (simp add: x)
qed

lemma dependencies_Creator:
  "map_of (creators c) (nm T) = Some (Creator U) \<Longrightarrow> dependencies nm c T = []"
  by (simp add: dependencies_def)

lemma dependencies_CreatorWithDependencies:
  "map_of (creators c) (nm T) = Some (CreatorWithDependencies U Args) \<Longrightarrow>
   dependencies nm c T = Args"
  by (simp add: dependencies_def)

lemma dependencies_unregistered:
  "map_of (creators c) (nm T) = None \<Longrightarrow> dependencies nm c T = []"
  by (simp add: dependencies_def)

lemma resolve_Suc_returns_dependency:
  assumes "resolve (Suc n) nm ord c h T = Some (Inr v)" and "D \<in> set (dependencies nm c T)"
  shows "\<exists>h1 v1. resolve n nm ord c h1 D = Some (Inr v1)"
proof -
  from assms(2) obtain U Args where cr: "map_of (creators c) (nm T) = Some (CreatorWithDependencies U Args)"
    and D: "D \<in> set Args"
    by (cases "map_of (creators c) (nm T)"; cases "the (map_of (creators c) (nm T))")
       (auto simp: dependencies_def)
  from D obtain i where i: "(i, D) \<in> set (evaluation_order ord Args)"
    using evaluation_order_types[of ord Args] by force
  from assms(1) cr obtain h' ps where
    "resolve_each (resolve n nm ord c) h (evaluation_order ord Args) = Some (Inr (h', ps))"
    by (auto simp: resolve_args_def split: option.splits sum.splits)
  from resolve_each_returns[OF this i] show ?thesis by blast
qed

lemma resolve_Suc_throws:
  assumes "resolve (Suc n) nm ord c h T = Some (Inl e)"
  shows "(\<not> registered nm c T \<and> e = UnregisteredType) \<or>
         (\<exists>D \<in> set (dependencies nm c T). \<exists>h1. resolve n nm ord c h1 D = Some (Inl e))"
proof (cases "map_of (creators c) (nm T)")
  case None
  with assms show ?thesis by (simp add: registered_def)
next
  case (Some cr)
  show ?thesis
  proof (cases cr)
    case (Creator U)
    with assms Some show ?thesis by simp
  next
    case (CreatorWithDependencies U Args)
    with assms Some have
      "resolve_each (resolve n nm ord c) h (evaluation_order ord Args) = Some (Inl e)"
      by (auto simp: resolve_args_def split: option.splits sum.splits)
    from resolve_each_throws[OF this] obtain i D h1
      where "(i, D) \<in> set (evaluation_order ord Args)" and "resolve n nm ord c h1 D = Some (Inl e)"
      by blast
    moreover from this(1) have "D \<in> set Args"
      using evaluation_order_types[of ord Args] by force
    ultimately show ?thesis
      using Some CreatorWithDependencies by (auto simp: dependencies_def)
  qed
qed

lemma resolve_Suc_comes_back:
  assumes "\<And>h D. D \<in> set (dependencies nm c T) \<Longrightarrow> resolve n nm ord c h D \<noteq> None"
  shows "resolve (Suc n) nm ord c h T \<noteq> None"
proof (cases "map_of (creators c) (nm T)")
  case None
  then show ?thesis by simp
next
  case (Some cr)
  show ?thesis
  proof (cases cr)
    case (Creator U)
    with Some show ?thesis by simp
  next
    case (CreatorWithDependencies U Args)
    have "resolve_each (resolve n nm ord c) h (evaluation_order ord Args) \<noteq> None"
      by (rule resolve_each_comes_back, rule assms)
         (simp add: evaluation_order_types dependencies_def Some CreatorWithDependencies)
    with Some CreatorWithDependencies show ?thesis
      by (auto simp: resolve_args_def split: option.splits sum.splits)
  qed
qed

lemma resolve_Suc_all_return:
  assumes "registered nm c T"
    and "\<And>h D. D \<in> set (dependencies nm c T) \<Longrightarrow> \<exists>v. resolve n nm ord c h D = Some (Inr v)"
  shows "\<exists>v. resolve (Suc n) nm ord c h T = Some (Inr v)"
proof -
  from assms(1) obtain cr where Some: "map_of (creators c) (nm T) = Some cr"
    by (auto simp: registered_def)
  show ?thesis
  proof (cases cr)
    case (Creator U)
    with Some show ?thesis by simp
  next
    case (CreatorWithDependencies U Args)
    have "\<exists>v. resolve_each (resolve n nm ord c) h (evaluation_order ord Args) = Some (Inr v)"
      by (rule resolve_each_all_return, rule assms(2))
         (simp add: evaluation_order_types dependencies_def Some CreatorWithDependencies)
    with Some CreatorWithDependencies show ?thesis
      by (auto simp: resolve_args_def split: option.splits sum.splits)
  qed
qed

subsection \<open>Resolution and the dependency graph\<close>

lemma returns_reachable:
  assumes "(T, U) \<in> (depends nm c)\<^sup>*" and "resolve n nm ord c h T = Some (Inr v)"
  shows "\<exists>m h1 v1. resolve m nm ord c h1 U = Some (Inr v1)"
  using assms
proof (induction rule: rtrancl_induct)
  case base
  then show ?case by blast
next
  case (step U W)
  then obtain m h1 v1 where m: "resolve m nm ord c h1 U = Some (Inr v1)" by blast
  then obtain m' where "m = Suc m'" by (cases m) simp_all
  with m step.hyps(2) show ?case
    using resolve_Suc_returns_dependency[of m' nm ord c h1 U v1 W]
    by (auto simp: depends_def)
qed

lemma returns_not_cyclic:
  "resolve n nm ord c h U = Some (Inr v) \<Longrightarrow> (U, U) \<notin> (depends nm c)\<^sup>+"
proof (induction n arbitrary: h U v)
  case 0
  then show ?case by simp
next
  case (Suc n)
  show ?case
  proof
    assume "(U, U) \<in> (depends nm c)\<^sup>+"
    then obtain D where D: "(U, D) \<in> depends nm c" and ret: "(D, U) \<in> (depends nm c)\<^sup>*"
      by (blast dest: tranclD)
    from D have "D \<in> set (dependencies nm c U)" by (simp add: depends_def)
    from resolve_Suc_returns_dependency[OF Suc.prems this]
    obtain h1 v1 where "resolve n nm ord c h1 D = Some (Inr v1)" by blast
    then have "(D, D) \<notin> (depends nm c)\<^sup>+" by (rule Suc.IH)
    moreover from ret D have "(D, D) \<in> (depends nm c)\<^sup>+" by (rule rtrancl_into_trancl1)
    ultimately show False by contradiction
  qed
qed

lemma throws_unregistered:
  "resolve n nm ord c h T = Some (Inl e) \<Longrightarrow>
   e = UnregisteredType \<and> (\<exists>U. (T, U) \<in> (depends nm c)\<^sup>* \<and> \<not> registered nm c U)"
proof (induction n arbitrary: h T)
  case 0
  then show ?case by simp
next
  case (Suc n)
  from resolve_Suc_throws[OF Suc.prems]
  consider "\<not> registered nm c T" "e = UnregisteredType"
    | D h1 where "D \<in> set (dependencies nm c T)" "resolve n nm ord c h1 D = Some (Inl e)"
    by blast
  then show ?case
  proof cases
    case 1
    then show ?thesis by blast
  next
    case 2
    from Suc.IH[OF 2(2)] obtain U where e: "e = UnregisteredType"
      and U: "(D, U) \<in> (depends nm c)\<^sup>*" "\<not> registered nm c U" by blast
    from 2(1) have "(T, D) \<in> depends nm c" by (simp add: depends_def)
    from this U(1) have "(T, U) \<in> (depends nm c)\<^sup>*" by (rule converse_rtrancl_into_rtrancl)
    with e U(2) show ?thesis by blast
  qed
qed

lemma returns_registered_from:
  assumes "resolve n nm ord c h T = Some (Inr v)"
  shows "registered_from nm c T"
  unfolding registered_from_def
proof (intro allI impI)
  fix U assume "(T, U) \<in> (depends nm c)\<^sup>*"
  from returns_reachable[OF this assms] obtain m h1 v1
    where "resolve m nm ord c h1 U = Some (Inr v1)" by blast
  then show "registered nm c U"
    unfolding registered_def by (rule resolve_returns_found)
qed

lemma returns_acyclic_from:
  assumes "resolve n nm ord c h T = Some (Inr v)"
  shows "acyclic_from nm c T"
  unfolding acyclic_from_def
proof (intro allI impI)
  fix U assume "(T, U) \<in> (depends nm c)\<^sup>*"
  from returns_reachable[OF this assms] obtain m h1 v1
    where "resolve m nm ord c h1 U = Some (Inr v1)" by blast
  then show "(U, U) \<notin> (depends nm c)\<^sup>+" by (rule returns_not_cyclic)
qed

lemma registered_from_step:
  "registered_from nm c T \<Longrightarrow> D \<in> set (dependencies nm c T) \<Longrightarrow> registered_from nm c D"
  unfolding registered_from_def depends_def
  by (blast intro: converse_rtrancl_into_rtrancl)

lemma registered_fromI:
  assumes "registered nm c T"
    and "\<And>D. D \<in> set (dependencies nm c T) \<Longrightarrow> registered_from nm c D"
  shows "registered_from nm c T"
  unfolding registered_from_def
proof (intro allI impI)
  fix U assume "(T, U) \<in> (depends nm c)\<^sup>*"
  then show "registered nm c U"
  proof (cases rule: converse_rtranclE)
    case base
    with assms(1) show ?thesis by simp
  next
    case (step D)
    then have "registered_from nm c D" by (intro assms(2)) (simp add: depends_def)
    with step(2) show ?thesis by (simp add: registered_from_def)
  qed
qed

lemma unregistered_not_registered_from:
  "map_of (creators c) (nm T) = None \<Longrightarrow> \<not> registered_from nm c T"
  by (auto simp: registered_from_def registered_def)

lemma never_returns_without_dependency:
  assumes "D \<in> set (dependencies nm c T)" and "\<not> registered nm c D"
  shows "resolve n nm ord c h T \<noteq> Some (Inr v)"
proof
  assume "resolve n nm ord c h T = Some (Inr v)"
  then have "registered_from nm c T" by (rule returns_registered_from)
  from this assms(1) have "registered_from nm c D" by (rule registered_from_step)
  with assms(2) show False by (simp add: registered_from_def)
qed

text \<open>
  A registry has finitely many entries, so the graph below a type is finite; without a
  cycle, the dependencies are well-founded and the depth of the recursion is bounded.
\<close>

lemma depends_finite_range:
  "finite (Range (depends nm c))"
proof -
  let ?A = "\<Union>e \<in> set (creators c). case snd e of Creator U \<Rightarrow> {} | CreatorWithDependencies U Args \<Rightarrow> set Args"
  have "finite ?A" by (auto split: creator.splits)
  moreover have "Range (depends nm c) \<subseteq> ?A"
  proof
    fix D assume "D \<in> Range (depends nm c)"
    then obtain T where "D \<in> set (dependencies nm c T)" by (auto simp: depends_def)
    then obtain U Args where "map_of (creators c) (nm T) = Some (CreatorWithDependencies U Args)"
      and D: "D \<in> set Args"
      by (cases "map_of (creators c) (nm T)"; cases "the (map_of (creators c) (nm T))")
         (auto simp: dependencies_def)
    then have "(nm T, CreatorWithDependencies U Args) \<in> set (creators c)"
      by (auto dest: map_of_SomeD)
    with D show "D \<in> ?A" by force
  qed
  ultimately show ?thesis by (rule rev_finite_subset)
qed

lemma acyclic_from_wf:
  assumes "acyclic_from nm c T"
  shows "wf {(D, U). (T, U) \<in> (depends nm c)\<^sup>* \<and> (U, D) \<in> depends nm c}" (is "wf ?R")
proof (rule finite_acyclic_wf)
  have "?R \<subseteq> Range (depends nm c) \<times> ({T} \<union> Range (depends nm c))"
    by (auto elim: rtranclE)
  moreover have "finite (Range (depends nm c) \<times> ({T} \<union> Range (depends nm c)))"
    by (simp add: depends_finite_range)
  ultimately show "finite ?R" by (rule finite_subset)
next
  show "acyclic ?R"
    unfolding acyclic_def
  proof (intro allI notI)
    fix x assume x: "(x, x) \<in> ?R\<^sup>+"
    have "?R \<subseteq> (depends nm c)\<inverse>" by auto
    then have "?R\<^sup>+ \<subseteq> ((depends nm c)\<inverse>)\<^sup>+" by (rule trancl_mono_subset)
    with x have "(x, x) \<in> ((depends nm c)\<^sup>+)\<inverse>" by (auto simp: trancl_converse)
    then have cyc: "(x, x) \<in> (depends nm c)\<^sup>+" by simp
    from x obtain z where "(z, x) \<in> ?R" by (blast dest: tranclD2)
    then have "(T, x) \<in> (depends nm c)\<^sup>*" by simp
    with assms cyc show False by (simp add: acyclic_from_def)
  qed
qed

lemma common_depth:
  assumes "\<And>D. D \<in> set Ds \<Longrightarrow> \<exists>n. \<forall>h. resolve n nm ord c h D \<noteq> None"
  shows "\<exists>n. \<forall>D \<in> set Ds. \<forall>h. resolve n nm ord c h D \<noteq> None"
  using assms
proof (induction Ds)
  case Nil
  then show ?case by simp
next
  case (Cons D Ds)
  from Cons.prems[of D] obtain n1 where n1: "\<And>h. resolve n1 nm ord c h D \<noteq> None" by auto
  from Cons.IH Cons.prems obtain n2 where n2: "\<And>E h. E \<in> set Ds \<Longrightarrow> resolve n2 nm ord c h E \<noteq> None"
    by (metis list.set_intros(2))
  have "resolve (max n1 n2) nm ord c h E \<noteq> None" if "E \<in> set (D # Ds)" for E h
  proof -
    from that n1 n2 obtain k where "k \<le> max n1 n2" and "resolve k nm ord c h E \<noteq> None"
      by (metis max.cobounded1 max.cobounded2 set_ConsD)
    then show ?thesis by (auto dest: resolve_mono)
  qed
  then show ?case by blast
qed

lemma acyclic_from_comes_back:
  assumes "acyclic_from nm c T"
  shows "\<exists>n. \<forall>h. resolve n nm ord c h T \<noteq> None"
proof -
  let ?R = "{(D, U). (T, U) \<in> (depends nm c)\<^sup>* \<and> (U, D) \<in> depends nm c}"
  have "wf ?R" using assms by (rule acyclic_from_wf)
  then have "(T, U) \<in> (depends nm c)\<^sup>* \<longrightarrow> (\<exists>n. \<forall>h. resolve n nm ord c h U \<noteq> None)" for U
  proof (induction U rule: wf_induct_rule)
    case (less U)
    show ?case
    proof
      assume U: "(T, U) \<in> (depends nm c)\<^sup>*"
      have "\<exists>n. \<forall>h. resolve n nm ord c h D \<noteq> None" if "D \<in> set (dependencies nm c U)" for D
      proof -
        from that have d: "(U, D) \<in> depends nm c" by (simp add: depends_def)
        with U have "(D, U) \<in> ?R" by simp
        moreover from U d have "(T, D) \<in> (depends nm c)\<^sup>*" by (rule rtrancl_into_rtrancl)
        ultimately show ?thesis using less.IH by blast
      qed
      from common_depth[OF this] obtain n
        where "\<And>D h. D \<in> set (dependencies nm c U) \<Longrightarrow> resolve n nm ord c h D \<noteq> None"
        by blast
      then have "resolve (Suc n) nm ord c h U \<noteq> None" for h
        by (rule resolve_Suc_comes_back)
      then show "\<exists>n. \<forall>h. resolve n nm ord c h U \<noteq> None" by blast
    qed
  qed
  then show ?thesis by blast
qed

lemma acyclic_from_returns_or_throws:
  assumes "acyclic_from nm c T"
  shows "\<exists>n. \<forall>h. (\<exists>v. resolve n nm ord c h T = Some (Inr v)) \<or> resolve n nm ord c h T = Some (Inl UnregisteredType)"
proof -
  from acyclic_from_comes_back[OF assms] obtain n
    where n: "\<And>h. resolve n nm ord c h T \<noteq> None" by blast
  have "(\<exists>v. resolve n nm ord c h T = Some (Inr v)) \<or> resolve n nm ord c h T = Some (Inl UnregisteredType)" for h
  proof -
    from n[of h] obtain w where w: "resolve n nm ord c h T = Some w" by auto
    show ?thesis
    proof (cases w)
      case (Inl e)
      with w throws_unregistered[of n nm ord c h T e] show ?thesis by simp
    next
      case (Inr v)
      with w show ?thesis by simp
    qed
  qed
  then show ?thesis by blast
qed

lemma registered_acyclic_returns:
  assumes "registered_from nm c T" and "acyclic_from nm c T"
  shows "\<exists>n. \<forall>h. \<exists>v. resolve n nm ord c h T = Some (Inr v)"
proof -
  from acyclic_from_returns_or_throws[OF assms(2)] obtain n where
    n: "\<And>h. (\<exists>v. resolve n nm ord c h T = Some (Inr v)) \<or> resolve n nm ord c h T = Some (Inl UnregisteredType)"
    by blast
  have "\<exists>v. resolve n nm ord c h T = Some (Inr v)" for h
    using n[of h] throws_unregistered[of n nm ord c h T UnregisteredType] assms(1)
    by (auto simp: registered_from_def)
  then show ?thesis by blast
qed

lemma registered_cyclic_never_comes_back:
  assumes "registered_from nm c T" and "\<not> acyclic_from nm c T"
  shows "resolve n nm ord c h T = None"
proof (cases "resolve n nm ord c h T")
  case None
  then show ?thesis .
next
  case (Some w)
  show ?thesis
  proof (cases w)
    case (Inl e)
    with Some throws_unregistered[of n nm ord c h T e] assms(1) show ?thesis
      by (auto simp: registered_from_def)
  next
    case (Inr v)
    with Some returns_acyclic_from[of n nm ord c h T v] assms(2) show ?thesis by simp
  qed
qed

lemma acyclic_from_rank:
  fixes rank :: "'t \<Rightarrow> nat"
  assumes "\<And>U D. D \<in> set (dependencies nm c U) \<Longrightarrow> rank D < rank U"
  shows "acyclic_from nm c T"
proof -
  have "rank W < rank U" if "(U, W) \<in> (depends nm c)\<^sup>+" for U W
    using that
  proof (induction rule: trancl_induct)
    case (base y)
    then show ?case by (simp add: depends_def assms)
  next
    case (step y z)
    from step.hyps(2) have "rank z < rank y" by (simp add: depends_def assms)
    with step.IH show ?case by simp
  qed
  then show ?thesis unfolding acyclic_from_def by fastforce
qed


subsection \<open>The registries of the program and of the scenarios\<close>

lemma inj_itanium_name: "inj itanium_name"
proof (rule injI)
  fix x y assume "itanium_name x = itanium_name y"
  then show "x = y" by (cases x; cases y) simp_all
qed

lemma main_container_find:
  assumes "inj nm"
  shows "map_of (creators (main_container nm)) (nm T) =
           Some (if T = Controller then CreatorWithDependencies Controller [Model, View, Logger]
                 else Creator T)"
  using assms
  by (cases T)
     (simp_all add: main_container_def find_registerType find_registerTypeWithDependencies
        DIContainer_new_def inj_eq)

lemma main_container_dependencies:
  assumes "inj nm"
  shows "dependencies nm (main_container nm) T =
           (if T = Controller then [Model, View, Logger] else [])"
  by (simp add: dependencies_def main_container_find[OF assms])

lemma main_container_acyclic:
  assumes "inj nm"
  shows "acyclic_from nm (main_container nm) T"
  by (rule acyclic_from_rank[where rank = "\<lambda>U. if U = Controller then 1 else 0"])
     (auto simp: main_container_dependencies[OF assms] split: if_splits)

lemma main_container_registered_from:
  assumes "inj nm"
  shows "registered_from nm (main_container nm) T"
proof -
  have "registered nm (main_container nm) U" for U
    by (simp add: registered_def main_container_find[OF assms])
  then show ?thesis by (simp add: registered_from_def)
qed

lemma no_logger_find:
  assumes "inj nm"
  shows "map_of (creators (no_logger nm)) (nm T) =
           (case T of
              Controller \<Rightarrow> Some (CreatorWithDependencies Controller [Model, View, Logger])
            | Model \<Rightarrow> Some (Creator Model)
            | View \<Rightarrow> Some (Creator View)
            | _ \<Rightarrow> None)"
  using assms
  by (cases T)
     (simp_all add: no_logger_def find_registerType find_registerTypeWithDependencies
        DIContainer_new_def inj_eq)

lemma no_logger_acyclic:
  assumes "inj nm"
  shows "acyclic_from nm (no_logger nm) T"
  by (rule acyclic_from_rank[where rank = "\<lambda>U. if U = Controller then 1 else 0"])
     (auto simp: dependencies_def no_logger_find[OF assms] split: if_splits cls.splits)

lemma view_needs_controller_find:
  assumes "inj nm"
  shows "map_of (creators (view_needs_controller nm)) (nm T) =
           (case T of
              Controller \<Rightarrow> Some (CreatorWithDependencies Controller [Model, View, Logger])
            | View \<Rightarrow> Some (CreatorWithDependencies View [Controller])
            | Configuration \<Rightarrow> None
            | _ \<Rightarrow> Some (Creator T))"
  using assms
  by (cases T)
     (simp_all add: view_needs_controller_def find_registerType find_registerTypeWithDependencies
        DIContainer_new_def inj_eq)

lemma view_needs_controller_registered_from:
  assumes "inj nm"
  shows "registered_from nm (view_needs_controller nm) Controller"
proof -
  let ?c = "view_needs_controller nm"
  have "U \<noteq> Configuration" if "(Controller, U) \<in> (depends nm ?c)\<^sup>*" for U
    using that
  proof (induction rule: rtrancl_induct)
    case base
    then show ?case by simp
  next
    case (step y z)
    then show ?case
      by (cases y) (auto simp: depends_def dependencies_def view_needs_controller_find[OF assms])
  qed
  then show ?thesis
    unfolding registered_from_def registered_def
    by (auto simp: view_needs_controller_find[OF assms] split: cls.splits)
qed

lemma view_needs_controller_cyclic:
  assumes "inj nm"
  shows "\<not> acyclic_from nm (view_needs_controller nm) Controller"
proof -
  let ?c = "view_needs_controller nm"
  have "(Controller, View) \<in> depends nm ?c" and "(View, Controller) \<in> depends nm ?c"
    by (simp_all add: depends_def dependencies_def view_needs_controller_find[OF assms])
  then have "(Controller, Controller) \<in> (depends nm ?c)\<^sup>+" by (rule trancl_into_trancl2[OF _ r_into_trancl])
  then show ?thesis unfolding acyclic_from_def by blast
qed


subsection \<open>The arguments of the constructor\<close>

text \<open>Evaluated left to right, the arguments are resolved in declared order.\<close>

lemma resolve_in_declared_order_length:
  "resolve_in_declared_order r h Ds = Some (Inr (h', ps)) \<Longrightarrow> length ps = length Ds"
proof (induction Ds arbitrary: h h' ps)
  case Nil
  then show ?case by simp
next
  case (Cons D Ds)
  from Cons.prems obtain h1 p h2 qs where "resolve_in_declared_order r h1 Ds = Some (Inr (h2, qs))"
    and "ps = p # qs"
    by (auto split: option.splits sum.splits prod.splits)
  with Cons.IH[of h1 h2 qs] show ?case by simp
qed

lemma resolve_each_zip:
  "length is = length Ds \<Longrightarrow>
   resolve_each r h (zip is Ds) =
     (case resolve_in_declared_order r h Ds of
        None \<Rightarrow> None
      | Some (Inl e) \<Rightarrow> Some (Inl e)
      | Some (Inr (h', ps)) \<Rightarrow> Some (Inr (h', zip is ps)))"
proof (induction Ds arbitrary: "is" h)
  case Nil
  then show ?case by simp
next
  case (Cons D Ds)
  then obtain i js where "is": "is = i # js" and len: "length js = length Ds"
    by (cases "is") simp_all
  show ?case
    by (simp add: "is" Cons.IH[OF len] split: option.split sum.split prod.split)
qed

lemma evaluation_order_left_to_right:
  "evaluation_order left_to_right Args = zip [0..<length Args] Args"
proof -
  have "map (\<lambda>(i, D). left_to_right (length Args) i) (zip [0..<length Args] Args)
          = map fst (zip [0..<length Args] Args)"
    by (simp add: left_to_right_def case_prod_unfold)
  also have "\<dots> = [0..<length Args]" by simp
  finally have "sorted (map (\<lambda>(i, D). left_to_right (length Args) i) (zip [0..<length Args] Args))"
    by simp
  then show ?thesis
    unfolding evaluation_order_def by (rule sort_key_id_if_sorted)
qed

lemma resolve_args_left_to_right:
  "resolve_args r left_to_right h Args = resolve_in_declared_order r h Args"
proof (cases "resolve_in_declared_order r h Args")
  case None
  then show ?thesis
    by (simp add: resolve_args_def evaluation_order_left_to_right resolve_each_zip)
next
  case (Some w)
  show ?thesis
  proof (cases w)
    case (Inl e)
    with Some show ?thesis
      by (simp add: resolve_args_def evaluation_order_left_to_right resolve_each_zip)
  next
    case (Inr v)
    obtain h' ps where v: "v = (h', ps)" by (cases v)
    from Some Inr v have len: "length ps = length Args"
      by (simp add: resolve_in_declared_order_length)
    then have "sorted (map fst (zip [0..<length Args] ps))" by simp
    then have "sort_key fst (zip [0..<length Args] ps) = zip [0..<length Args] ps"
      by (rule sort_key_id_if_sorted)
    with Some Inr v len show ?thesis
      by (simp add: resolve_args_def evaluation_order_left_to_right resolve_each_zip)
  qed
qed

text \<open>
  A call only adds objects to the heap, and the handle it returns is the last one added.
  Whatever the order of evaluation, the value at position \<open>i\<close> is the value of the call
  for the dependency declared at position \<open>i\<close>.
\<close>

lemma resolve_each_values:
  assumes ext: "\<And>h D h' p. r h D = Some (Inr (h', p)) \<Longrightarrow> prefix h h'"
  shows "resolve_each r h xs = Some (Inr (h', ps)) \<Longrightarrow>
     prefix h h' \<and> map fst ps = map fst xs \<and>
     (\<forall>k < length xs. \<exists>h1 h2. prefix h h1 \<and> prefix h2 h' \<and>
         r h1 (snd (xs ! k)) = Some (Inr (h2, snd (ps ! k))))"
proof (induction xs arbitrary: h h' ps)
  case Nil
  then show ?case by simp
next
  case (Cons x xs)
  obtain j E where x: "x = (j, E)" by (cases x)
  from Cons.prems obtain h1 p where 1: "r h E = Some (Inr (h1, p))"
    by (auto simp: x split: option.splits sum.splits)
  with Cons.prems obtain qs where 2: "resolve_each r h1 xs = Some (Inr (h', qs))"
    and ps: "ps = (j, p) # qs"
    by (auto simp: x split: option.splits sum.splits)
  from ext[OF 1] have p1: "prefix h h1" .
  from Cons.IH[OF 2] have p2: "prefix h1 h'" and fs: "map fst qs = map fst xs"
    and vs: "\<And>k. k < length xs \<Longrightarrow> \<exists>ha hb. prefix h1 ha \<and> prefix hb h' \<and>
         r ha (snd (xs ! k)) = Some (Inr (hb, snd (qs ! k)))"
    by simp_all
  have "\<exists>ha hb. prefix h ha \<and> prefix hb h' \<and>
         r ha (snd ((x # xs) ! k)) = Some (Inr (hb, snd (ps ! k)))"
    if "k < length (x # xs)" for k
  proof (cases k)
    case 0
    with 1 p2 show ?thesis by (auto simp: x ps)
  next
    case (Suc k')
    with that have "k' < length xs" by simp
    from vs[OF this] obtain ha hb where "prefix h1 ha" "prefix hb h'"
      "r ha (snd (xs ! k')) = Some (Inr (hb, snd (qs ! k')))" by blast
    moreover from p1 this(1) have "prefix h ha" by (rule prefix_order.trans)
    ultimately show ?thesis by (auto simp: Suc ps)
  qed
  moreover from p1 p2 have "prefix h h'" by (rule prefix_order.trans)
  ultimately show ?case by (simp add: fs ps x)
qed

lemma resolve_extends:
  "resolve n nm ord c h T = Some (Inr (h', p)) \<Longrightarrow>
   prefix h h' \<and> length h < length h' \<and> p = Ptr (length h' - 1)"
proof (induction n arbitrary: h T h' p)
  case 0
  then show ?case by simp
next
  case (Suc n)
  from Suc.prems obtain cr where cr: "map_of (creators c) (nm T) = Some cr"
    by (auto split: option.splits)
  show ?case
  proof (cases cr)
    case (Creator U)
    with Suc.prems cr show ?thesis by (auto simp: make_shared_def)
  next
    case (CreatorWithDependencies U Args)
    with Suc.prems cr obtain h2 ps where
      e: "resolve_each (resolve n nm ord c) h (evaluation_order ord Args) = Some (Inr (h2, ps))"
      and h': "h' = h2 @ [Object U (map snd (sort_key fst ps))]" and p: "p = Ptr (length h2)"
      by (auto simp: resolve_args_def make_shared_def split: option.splits sum.splits)
    have "prefix h h2"
      using resolve_each_values[where r = "resolve n nm ord c", OF _ e] Suc.IH by blast
    then have "prefix h h'" and "length h < length h'"
      by (auto simp: h' prefix_def)
    with p h' show ?thesis by simp
  qed
qed

lemma evaluation_order_positions:
  "distinct (map fst (evaluation_order ord Args))"
  "set (evaluation_order ord Args) = set (zip [0..<length Args] Args)"
proof -
  have "distinct (map fst (zip [0..<length Args] Args))" by simp
  then have "distinct (zip [0..<length Args] Args)
      \<and> inj_on fst (set (zip [0..<length Args] Args))"
    by (simp only: distinct_map)
  then show "distinct (map fst (evaluation_order ord Args))"
    by (simp add: evaluation_order_def distinct_map)
  show "set (evaluation_order ord Args) = set (zip [0..<length Args] Args)"
    by (simp add: evaluation_order_def)
qed

lemma sort_key_fst_positions:
  assumes "distinct (map fst ps)" and "fst ` set ps = {0..<n}"
  shows "map fst (sort_key fst ps) = [0..<n]"
proof (rule sorted_distinct_set_unique)
  show "sorted (map fst (sort_key fst ps))" by (rule sorted_sort_key)
  show "distinct (map fst (sort_key fst ps))"
    using assms(1) by (simp add: distinct_map)
  show "sorted [0..<n]" by simp
  show "distinct [0..<n]" by simp
  show "set (map fst (sort_key fst ps)) = set [0..<n]"
    using assms(2) by simp
qed

lemma with_dependencies_object:
  assumes cr: "map_of (creators c) (nm T) = Some (CreatorWithDependencies U Args)"
    and res: "resolve (Suc n) nm ord c h T = Some (Inr (h', p))"
  shows "\<exists>h2 args. h' = h2 @ [Object U args] \<and> p = Ptr (length h2) \<and> prefix h h2
           \<and> length args = length Args
           \<and> (\<forall>i < length Args. \<exists>ha hb. prefix h ha \<and> prefix hb h2 \<and>
                 resolve n nm ord c ha (Args ! i) = Some (Inr (hb, args ! i)))"
proof -
  let ?xs = "evaluation_order ord Args"
  let ?n = "length Args"
  from res cr obtain h2 ps where
    e: "resolve_each (resolve n nm ord c) h ?xs = Some (Inr (h2, ps))"
    and h': "h' = h2 @ [Object U (map snd (sort_key fst ps))]" and p: "p = Ptr (length h2)"
    by (auto simp: resolve_args_def make_shared_def split: option.splits sum.splits)
  let ?qs = "sort_key fst ps"
  have ext: "prefix h h'" if "resolve n nm ord c h D = Some (Inr (h', p))" for h D h' p
    using resolve_extends[OF that] by (rule conjunct1)
  from resolve_each_values[where r = "resolve n nm ord c", OF ext e]
  have pre: "prefix h h2" and fs: "map fst ps = map fst ?xs"
    and vs: "\<And>k. k < length ?xs \<Longrightarrow> \<exists>ha hb. prefix h ha \<and> prefix hb h2 \<and>
         resolve n nm ord c ha (snd (?xs ! k)) = Some (Inr (hb, snd (ps ! k)))"
    by simp_all
  have lenxs: "length ?xs = ?n" by (simp add: evaluation_order_def)
  from fs have lenps: "length ps = ?n"
    using lenxs by (metis length_map)
  have dps: "distinct (map fst ps)"
    by (simp only: fs evaluation_order_positions(1))
  have "fst ` set ps = set (map fst ps)" by simp
  also have "\<dots> = fst ` set (zip [0..<?n] Args)"
    by (simp only: fs set_map evaluation_order_positions(2))
  also have "\<dots> = set (map fst (zip [0..<?n] Args))" by (simp only: set_map)
  also have "\<dots> = {0..<?n}" by simp
  finally have sps: "fst ` set ps = {0..<?n}" .
  from sort_key_fst_positions[OF dps sps] have qs: "map fst ?qs = [0..<?n]" .
  have lenqs: "length ?qs = ?n" by (simp add: lenps)
  have "\<exists>ha hb. prefix h ha \<and> prefix hb h2 \<and>
          resolve n nm ord c ha (Args ! i) = Some (Inr (hb, map snd ?qs ! i))"
    if i: "i < ?n" for i
  proof -
    from i lenqs have "fst (?qs ! i) = map fst ?qs ! i" by simp
    also from i have "\<dots> = i" by (simp only: qs) simp
    finally have fi: "fst (?qs ! i) = i" .
    have "?qs ! i \<in> set ?qs" by (rule nth_mem) (simp add: i lenps)
    then have "?qs ! i \<in> set ps" by (simp only: set_sort)
    then obtain k where k: "k < length ps" and pk: "ps ! k = ?qs ! i"
      by (auto simp: in_set_conv_nth)
    from k lenps lenxs have kx: "k < length ?xs" by simp
    from k have "fst (?xs ! k) = map fst ?xs ! k" using kx by simp
    also have "\<dots> = map fst ps ! k" by (simp only: fs)
    also from k have "\<dots> = fst (ps ! k)" by simp
    finally have fx: "fst (?xs ! k) = i" by (simp add: pk fi)
    from kx have "?xs ! k \<in> set ?xs" by (rule nth_mem)
    then have "?xs ! k \<in> set (zip [0..<?n] Args)"
      by (simp only: evaluation_order_positions(2))
    then obtain m where m: "m < ?n" and xk: "?xs ! k = ([0..<?n] ! m, Args ! m)"
      by (auto simp: in_set_zip)
    from m xk fx have "m = i" by simp
    with xk have sx: "snd (?xs ! k) = Args ! i" by simp
    from vs[OF kx] obtain ha hb where "prefix h ha" "prefix hb h2"
      "resolve n nm ord c ha (snd (?xs ! k)) = Some (Inr (hb, snd (ps ! k)))" by blast
    moreover from i lenqs have "map snd ?qs ! i = snd (?qs ! i)" by simp
    ultimately show ?thesis by (auto simp: sx pk)
  qed
  with h' p pre lenqs show ?thesis by (intro exI[of _ h2] exI[of _ "map snd ?qs"]) simp
qed

lemma with_dependencies_fresh:
  assumes cr: "map_of (creators c) (nm T) = Some (CreatorWithDependencies U Args)"
    and res: "resolve n nm ord c h T = Some (Inr (h', p))"
  shows "\<exists>a args. p = Ptr a \<and> length h \<le> a \<and> a < length h' \<and> h' ! a = Object U args
           \<and> length args = length Args
           \<and> (\<forall>i < length Args. \<exists>b. args ! i = Ptr b \<and> length h \<le> b \<and> b < a)"
proof -
  from res obtain m where n: "n = Suc m" by (cases n) simp_all
  from with_dependencies_object[OF cr res[unfolded n]]
  obtain h2 args where h': "h' = h2 @ [Object U args]" and p: "p = Ptr (length h2)"
    and pre: "prefix h h2" and len: "length args = length Args"
    and vs: "\<And>i. i < length Args \<Longrightarrow> \<exists>ha hb. prefix h ha \<and> prefix hb h2 \<and>
                 resolve m nm ord c ha (Args ! i) = Some (Inr (hb, args ! i))"
    by blast
  have "\<exists>b. args ! i = Ptr b \<and> length h \<le> b \<and> b < length h2" if "i < length Args" for i
  proof -
    from vs[OF that] obtain ha hb where a: "prefix h ha" and b: "prefix hb h2"
      and r: "resolve m nm ord c ha (Args ! i) = Some (Inr (hb, args ! i))" by blast
    from resolve_extends[OF r] have "length ha < length hb" and "args ! i = Ptr (length hb - 1)"
      by simp_all
    moreover from a have "length h \<le> length ha" by (rule prefix_length_le)
    moreover from b have "length hb \<le> length h2" by (rule prefix_length_le)
    ultimately have "args ! i = Ptr (length hb - 1)" and "length h \<le> length hb - 1"
      and "length hb - 1 < length h2"
      by simp_all
    then show ?thesis by (intro exI[of _ "length hb - 1"] conjI)
  qed
  moreover from pre have "length h \<le> length h2" by (rule prefix_length_le)
  ultimately show ?thesis
    using h' p len by (intro exI[of _ "length h2"] exI[of _ args]) simp
qed

subsection \<open>The keys of a registry\<close>


subsection \<open>The \<open>resolve\<close> calls of \<open>main\<close>\<close>

lemma main_after_four:
  assumes "inj nm"
  shows "main (Suc n) nm ord =
     (case resolve (Suc n) nm ord (main_container nm)
             [Object Configuration [], Object Logger [], Object Model [], Object View []]
             Controller of
        None \<Rightarrow> None
      | Some (Inl e) \<Rightarrow> Some (Inl e)
      | Some (Inr (h5, p5)) \<Rightarrow>
          Some (Inr (h5, \<lparr>config = Ptr 0, logger = Ptr 1, model = Ptr 2, view = Ptr 3,
                           controller = p5\<rparr>)))"
proof -
  have r: "resolve (Suc n) nm ord (main_container nm) h T =
      Some (Inr (h @ [Object T []], Ptr (length h)))" if "T \<noteq> Controller" for h T
    by (rule resolve_Creator) (simp add: main_container_find[OF assms] that)
  let ?c = "main_container nm"
  have 1: "resolve (Suc n) nm ord ?c [] Configuration =
      Some (Inr ([Object Configuration []], Ptr 0))"
    using r[of Configuration "[]"] by simp
  have 2: "resolve (Suc n) nm ord ?c [Object Configuration []] Logger =
      Some (Inr ([Object Configuration [], Object Logger []], Ptr 1))"
    using r[of Logger "[Object Configuration []]"] by simp
  have 3: "resolve (Suc n) nm ord ?c [Object Configuration [], Object Logger []] Model =
      Some (Inr ([Object Configuration [], Object Logger [], Object Model []], Ptr 2))"
    using r[of Model "[Object Configuration [], Object Logger []]"] by simp
  have 4: "resolve (Suc n) nm ord ?c
        [Object Configuration [], Object Logger [], Object Model []] View =
      Some (Inr ([Object Configuration [], Object Logger [], Object Model [], Object View []],
                 Ptr 3))"
    using r[of View "[Object Configuration [], Object Logger [], Object Model []]"] by simp
  show ?thesis
    unfolding main_def Let_def
    by (simp only: 1 2 3 4 option.case sum.case prod.case)
qed

lemma main_container_resolve_returns:
  assumes inj: "inj nm"
  shows "\<exists>v. resolve (Suc (Suc n)) nm ord (main_container nm) h T = Some (Inr v)"
proof (rule resolve_Suc_all_return)
  show "registered nm (main_container nm) T"
    by (simp add: registered_def main_container_find[OF inj])
  fix h1 D assume "D \<in> set (dependencies nm (main_container nm) T)"
  then have "D \<noteq> Controller"
    by (auto simp: main_container_dependencies[OF inj] split: if_splits)
  then have "resolve (Suc n) nm ord (main_container nm) h1 D =
      Some (Inr (h1 @ [Object D []], Ptr (length h1)))"
    by (intro resolve_Creator) (simp add: main_container_find[OF inj])
  then show "\<exists>v. resolve (Suc n) nm ord (main_container nm) h1 D = Some (Inr v)" by simp
qed

lemma main_controller_dependencies:
  assumes inj: "inj nm"
    and res: "resolve (Suc (Suc n)) nm ord (main_container nm) h Controller = Some (Inr (h', p))"
  shows "\<exists>h2 bm bv bl. h' = h2 @ [Object Controller [Ptr bm, Ptr bv, Ptr bl]]
           \<and> p = Ptr (length h2) \<and> prefix h h2
           \<and> length h \<le> bm \<and> bm < length h2 \<and> h2 ! bm = Object Model []
           \<and> length h \<le> bv \<and> bv < length h2 \<and> h2 ! bv = Object View []
           \<and> length h \<le> bl \<and> bl < length h2 \<and> h2 ! bl = Object Logger []"
proof -
  let ?c = "main_container nm"
  let ?Args = "[Model, View, Logger]"
  have cr: "map_of (creators ?c) (nm Controller) = Some (CreatorWithDependencies Controller ?Args)"
    by (simp add: main_container_find[OF inj])
  from with_dependencies_object[OF cr res]
  obtain h2 args where h': "h' = h2 @ [Object Controller args]" and p: "p = Ptr (length h2)"
    and pre: "prefix h h2" and len: "length args = length ?Args"
    and vs: "\<And>i. i < length ?Args \<Longrightarrow> \<exists>ha hb. prefix h ha \<and> prefix hb h2 \<and>
                 resolve (Suc n) nm ord ?c ha (?Args ! i) = Some (Inr (hb, args ! i))"
    by blast
  have one: "\<exists>b. args ! i = Ptr b \<and> length h \<le> b \<and> b < length h2 \<and> h2 ! b = Object D []"
    if i: "i < length ?Args" and D: "?Args ! i = D" and nc: "D \<noteq> Controller" for i D
  proof -
    from vs[OF i] D obtain ha hb where a: "prefix h ha" and b: "prefix hb h2"
      and r: "resolve (Suc n) nm ord ?c ha D = Some (Inr (hb, args ! i))" by auto
    have "resolve (Suc n) nm ord ?c ha D = Some (Inr (ha @ [Object D []], Ptr (length ha)))"
      by (rule resolve_Creator) (simp add: main_container_find[OF inj] nc)
    with r have hb: "hb = ha @ [Object D []]" and ai: "args ! i = Ptr (length ha)" by simp_all
    from b obtain zs where h2: "h2 = ha @ [Object D []] @ zs" by (auto simp: hb prefix_def)
    then have "h2 ! length ha = Object D []" and "length ha < length h2" by simp_all
    moreover from a have "length h \<le> length ha" by (rule prefix_length_le)
    ultimately show ?thesis using ai by (intro exI[of _ "length ha"] conjI)
  qed
  from one[of 0 Model] obtain bm where bm: "args ! 0 = Ptr bm" "length h \<le> bm" "bm < length h2"
    "h2 ! bm = Object Model []" by auto
  from one[of 1 View] obtain bv where bv: "args ! 1 = Ptr bv" "length h \<le> bv" "bv < length h2"
    "h2 ! bv = Object View []" by auto
  from one[of 2 Logger] obtain bl where bl: "args ! 2 = Ptr bl" "length h \<le> bl" "bl < length h2"
    "h2 ! bl = Object Logger []" by auto
  from len have "args = [args ! 0, args ! 1, args ! 2]"
    by (cases args; cases "tl args"; cases "tl (tl args)") auto
  with bm(1) bv(1) bl(1) have "args = [Ptr bm, Ptr bv, Ptr bl]" by simp
  with h' p pre bm bv bl show ?thesis
    by (intro exI[of _ h2] exI[of _ bm] exI[of _ bv] exI[of _ bl] conjI) simp_all
qed

section \<open>The claims\<close>

text \<open>
  C1.  Let \<open>T\<close> be registered by \<open>registerTypeWithDependencies<T, Args...>\<close>, and let the
  dependency graph below \<open>T\<close> have no cycle.  Then, whatever the order in which the compiler
  evaluates the arguments, \<open>resolve<T>\<close> returns exactly when every dependency in \<open>Args\<close>
  is transitively registered.  When one is not, \<open>resolve<T>\<close> throws the error of the
  unregistered type, and the error comes out of the nested \<open>resolve\<close> of a dependency that
  is not transitively registered.
\<close>

theorem resolve_with_dependencies:
  assumes "map_of (creators c) (nm T) = Some (CreatorWithDependencies T Args)"
    and "acyclic_from nm c T"
  shows "((\<exists>n h' p. resolve n nm ord c h T = Some (Inr (h', p))) \<longleftrightarrow>
            (\<forall>D \<in> set Args. registered_from nm c D))
       \<and> ((\<exists>D \<in> set Args. \<not> registered_from nm c D) \<longrightarrow>
            (\<exists>n. resolve n nm ord c h T = Some (Inl UnregisteredType))
          \<and> (\<exists>D \<in> set Args. \<not> registered_from nm c D \<and>
               (\<exists>n h1. resolve n nm ord c h1 D = Some (Inl UnregisteredType))))"
proof -
  have deps: "dependencies nm c T = Args"
    using assms(1) by (simp add: dependencies_def)
  have reg: "registered nm c T"
    using assms(1) by (simp add: registered_def)
  have 1: "registered_from nm c D"
    if "resolve n nm ord c h T = Some (Inr v)" and "D \<in> set Args" for n v D
  proof (rule registered_from_step)
    show "registered_from nm c T" using that(1) by (rule returns_registered_from)
    show "D \<in> set (dependencies nm c T)" using that(2) by (simp add: deps)
  qed
  have 2: "\<exists>n h' p. resolve n nm ord c h T = Some (Inr (h', p))"
    if "\<forall>D \<in> set Args. registered_from nm c D"
  proof -
    have "registered_from nm c T"
      by (rule registered_fromI[OF reg]) (simp add: deps that)
    from registered_acyclic_returns[OF this assms(2), of ord]
    obtain n v where "resolve n nm ord c h T = Some (Inr v)" by blast
    then have "resolve n nm ord c h T = Some (Inr (fst v, snd v))" by simp
    then show ?thesis by (intro exI)
  qed
  have 3: "(\<exists>n. resolve n nm ord c h T = Some (Inl UnregisteredType))
          \<and> (\<exists>D \<in> set Args. \<not> registered_from nm c D \<and>
               (\<exists>n h1. resolve n nm ord c h1 D = Some (Inl UnregisteredType)))"
    if "\<exists>D \<in> set Args. \<not> registered_from nm c D"
  proof -
    from acyclic_from_returns_or_throws[OF assms(2), of ord] obtain n where
      n: "(\<exists>v. resolve n nm ord c h T = Some (Inr v))
          \<or> resolve n nm ord c h T = Some (Inl UnregisteredType)"
      by blast
    have "resolve n nm ord c h T \<noteq> Some (Inr v)" for v
      using 1[of n v] that by blast
    with n have thr: "resolve n nm ord c h T = Some (Inl UnregisteredType)" by simp
    then obtain m where m: "n = Suc m" by (cases n) simp_all
    from resolve_Suc_throws[OF thr[unfolded m]] reg
    obtain D h1 where D: "D \<in> set (dependencies nm c T)"
      and D': "resolve m nm ord c h1 D = Some (Inl UnregisteredType)"
      by blast
    from throws_unregistered[OF D'] have "\<not> registered_from nm c D"
      by (auto simp: registered_from_def)
    with D D' have "\<exists>D \<in> set Args. \<not> registered_from nm c D \<and>
               (\<exists>n h1. resolve n nm ord c h1 D = Some (Inl UnregisteredType))"
      unfolding deps by (intro bexI[of _ D] conjI exI)
    with thr show ?thesis by (intro conjI exI)
  qed
  show ?thesis
  proof (intro conjI iffI impI)
    assume "\<exists>n h' p. resolve n nm ord c h T = Some (Inr (h', p))"
    then obtain n h' p where "resolve n nm ord c h T = Some (Inr (h', p))" by (elim exE)
    from 1[OF this] show "\<forall>D \<in> set Args. registered_from nm c D" by (intro ballI)
  next
    assume "\<forall>D \<in> set Args. registered_from nm c D"
    then show "\<exists>n h' p. resolve n nm ord c h T = Some (Inr (h', p))" by (rule 2)
  next
    assume a: "\<exists>D \<in> set Args. \<not> registered_from nm c D"
    from 3[OF a] show "\<exists>n. resolve n nm ord c h T = Some (Inl UnregisteredType)"
      by (rule conjunct1)
    from 3[OF a] show "\<exists>D \<in> set Args. \<not> registered_from nm c D \<and>
               (\<exists>n h1. resolve n nm ord c h1 D = Some (Inl UnregisteredType))"
      by (rule conjunct2)
  qed
qed

text \<open>
  The program's registry, where the \<open>Controller\<close> resolves, and the registry without
  \<open>Logger\<close>, where it throws.
\<close>

theorem resolve_with_dependencies_witness:
  "map_of (creators (main_container itanium_name)) (itanium_name Controller)
      = Some (CreatorWithDependencies Controller [Model, View, Logger])
   \<and> acyclic_from itanium_name (main_container itanium_name) Controller
   \<and> registered_from itanium_name (main_container itanium_name) Model
   \<and> registered_from itanium_name (main_container itanium_name) View
   \<and> registered_from itanium_name (main_container itanium_name) Logger
   \<and> (\<exists>n h' p. resolve n itanium_name right_to_left (main_container itanium_name) [] Controller = Some (Inr (h', p)))
   \<and> map_of (creators (no_logger itanium_name)) (itanium_name Controller)
      = Some (CreatorWithDependencies Controller [Model, View, Logger])
   \<and> acyclic_from itanium_name (no_logger itanium_name) Controller
   \<and> \<not> registered_from itanium_name (no_logger itanium_name) Logger
   \<and> (\<exists>n. resolve n itanium_name right_to_left (no_logger itanium_name) [] Controller = Some (Inl UnregisteredType))"
proof -
  note i = inj_itanium_name
  have 1: "map_of (creators (main_container itanium_name)) (itanium_name Controller)
      = Some (CreatorWithDependencies Controller [Model, View, Logger])"
    using main_container_find[OF i, of Controller] by simp
  have 2: "map_of (creators (no_logger itanium_name)) (itanium_name Controller)
      = Some (CreatorWithDependencies Controller [Model, View, Logger])"
    using no_logger_find[OF i, of Controller] by simp
  have 3: "\<not> registered_from itanium_name (no_logger itanium_name) Logger"
    by (rule unregistered_not_registered_from) (use no_logger_find[OF i, of Logger] in simp)
  show ?thesis
    using resolve_with_dependencies[OF 1 main_container_acyclic[OF i], of right_to_left "[]"]
      resolve_with_dependencies[OF 2 no_logger_acyclic[OF i], of right_to_left "[]"]
      1 2 3 main_container_acyclic[OF i, of Controller] no_logger_acyclic[OF i, of Controller]
      main_container_registered_from[OF i]
    by auto
qed

text \<open>
  Without the condition on cycles the equivalence fails: in \<open>view_needs_controller\<close>
  every dependency of \<open>Controller\<close> is transitively registered, and \<open>resolve<Controller>\<close>
  never returns.
\<close>

theorem resolve_with_dependencies_counterexample:
  "map_of (creators (view_needs_controller itanium_name)) (itanium_name Controller)
      = Some (CreatorWithDependencies Controller [Model, View, Logger])
   \<and> registered_from itanium_name (view_needs_controller itanium_name) Model
   \<and> registered_from itanium_name (view_needs_controller itanium_name) View
   \<and> registered_from itanium_name (view_needs_controller itanium_name) Logger
   \<and> (\<forall>n. resolve n itanium_name left_to_right (view_needs_controller itanium_name) [] Controller = None)"
proof -
  note f = view_needs_controller_find[OF inj_itanium_name]
  have r: "registered_from itanium_name (view_needs_controller itanium_name) Controller"
    by (rule view_needs_controller_registered_from[OF inj_itanium_name])
  have d: "dependencies itanium_name (view_needs_controller itanium_name) Controller = [Model, View, Logger]"
    using f[of Controller] by (simp add: dependencies_def)
  from r d have "registered_from itanium_name (view_needs_controller itanium_name) D"
    if "D \<in> {Model, View, Logger}" for D
    using that registered_from_step[of itanium_name _ Controller D] by auto
  moreover have "resolve n itanium_name left_to_right (view_needs_controller itanium_name) [] Controller = None" for n
    by (rule registered_cyclic_never_comes_back[OF r view_needs_controller_cyclic[OF inj_itanium_name]])
  ultimately show ?thesis using f[of Controller] by simp
qed

text \<open>
  C2.  When no factory is stored under the key of \<open>T\<close>, \<open>resolve<T>\<close> throws
  \<open>std::runtime_error("Type not registered in DI container.")\<close>, and for no bound on the
  depth does it return a handle, null or not.
\<close>

theorem resolve_unregistered_throws:
  assumes "map_of (creators c) (nm T) = None"
  shows "resolve (Suc n) nm ord c h T = Some (Inl UnregisteredType)
       \<and> UnregisteredType = runtime_error ''Type not registered in DI container.''
       \<and> (\<forall>m h' p. resolve m nm ord c h T \<noteq> Some (Inr (h', p)))"
  using assms resolve_returns_found[of _ nm ord c h T]
  by (fastforce simp: UnregisteredType_def)

text \<open>\<open>resolve<Controller>\<close> before \<open>Controller\<close> is registered.\<close>

theorem resolve_unregistered_throws_witness:
  "map_of (creators (registrations itanium_name [RegisterType Logger, RegisterType Model, RegisterType View]))
      (itanium_name Controller) = None
   \<and> resolve (Suc 0) itanium_name left_to_right
        (registrations itanium_name [RegisterType Logger, RegisterType Model, RegisterType View])
        [] Controller = Some (Inl UnregisteredType)
   \<and> (\<forall>m h' p. resolve m itanium_name left_to_right
        (registrations itanium_name [RegisterType Logger, RegisterType Model, RegisterType View])
        [] Controller \<noteq> Some (Inr (h', p)))"
proof -
  have "map_of (creators (registrations itanium_name
          [RegisterType Logger, RegisterType Model, RegisterType View]))
      (itanium_name Controller) = None"
    by (simp add: registrations_def registerType_def DIContainer_new_def)
  from this resolve_unregistered_throws[where nm = itanium_name and T = Controller
      and n = 0 and ord = left_to_right and h = "[]", OF this] show ?thesis
    by blast
qed

text \<open>
  C3.  When the key of \<open>T\<close> holds the factory that \<open>registerType<T>\<close> stored, two
  \<open>resolve<T>\<close> calls, one after the other, each run the factory: each allocates an
  object of its own, and the two handles differ.  Nothing is cached.
\<close>

theorem successive_resolves_distinct:
  assumes "map_of (creators c) (nm T) = Some (Creator T)"
  shows "\<exists>h1 p1 h2 p2.
           resolve (Suc n) nm ord c h T = Some (Inr (h1, p1))
         \<and> resolve (Suc m) nm ord c h1 T = Some (Inr (h2, p2))
         \<and> p1 = Ptr (length h) \<and> p2 = Ptr (Suc (length h)) \<and> p1 \<noteq> p2
         \<and> h2 = h @ [Object T [], Object T []]"
  using assms by (simp add: make_shared_def)

theorem successive_resolves_distinct_witness:
  "map_of (creators (main_container itanium_name)) (itanium_name Model) = Some (Creator Model)
   \<and> (\<exists>h1 p1 h2 p2.
           resolve (Suc 0) itanium_name left_to_right (main_container itanium_name) [] Model
             = Some (Inr (h1, p1))
         \<and> resolve (Suc 0) itanium_name left_to_right (main_container itanium_name) h1 Model
             = Some (Inr (h2, p2))
         \<and> p1 = Ptr 0 \<and> p2 = Ptr 1 \<and> p1 \<noteq> p2
         \<and> h2 = [Object Model [], Object Model []])"
proof -
  have "map_of (creators (main_container itanium_name)) (itanium_name Model) = Some (Creator Model)"
    using main_container_find[OF inj_itanium_name, of Model] by simp
  from this successive_resolves_distinct[where nm = itanium_name and T = Model
      and n = 0 and m = 0 and ord = left_to_right and h = "[]", OF this] show ?thesis
    by simp
qed


text \<open>
  C5.  \<open>registerTypeWithDependencies<T, Args...>\<close> has no outcome but the new registry: it
  stores the factory under the key of \<open>T\<close> and leaves every other entry as it was, whether
  or not the dependencies are registered.  A dependency that is missing shows only when
  \<open>T\<close> is resolved: \<open>resolve<T>\<close> then never returns a handle, and throws when there is no
  cycle below \<open>T\<close>.  Dependencies registered after \<open>T\<close> are found when \<open>T\<close> is resolved.
\<close>

theorem registration_defers_resolution:
  assumes "c' = registerTypeWithDependencies nm c T Args"
  shows "map_of (creators c') (nm T) = Some (CreatorWithDependencies T Args)
       \<and> (\<forall>k. k \<noteq> nm T \<longrightarrow> map_of (creators c') k = map_of (creators c) k)
       \<and> ((\<exists>D \<in> set Args. \<not> registered nm c' D) \<longrightarrow>
            (\<forall>n h' p. resolve n nm ord c' h T \<noteq> Some (Inr (h', p)))
          \<and> (acyclic_from nm c' T \<longrightarrow>
               (\<exists>n. resolve n nm ord c' h T = Some (Inl UnregisteredType))))
       \<and> (nm T \<notin> nm ` set Args \<longrightarrow>
            (\<exists>v. resolve (Suc (Suc n)) nm ord (foldl (registerType nm) c' Args) h T
                    = Some (Inr v)))"
proof -
  have f: "map_of (creators c') (nm T) = Some (CreatorWithDependencies T Args)"
    by (simp add: assms find_registerTypeWithDependencies)
  have o: "map_of (creators c') k = map_of (creators c) k" if "k \<noteq> nm T" for k
    using that by (simp add: assms find_registerTypeWithDependencies)
  have d: "dependencies nm c' T = Args" using f by (simp add: dependencies_def)
  have 1: "resolve n nm ord c' h T \<noteq> Some (Inr (h', p))"
    if "\<exists>D \<in> set Args. \<not> registered nm c' D" for n h' p
    using that never_returns_without_dependency[of _ nm c' T] d by blast
  have 2: "\<exists>n. resolve n nm ord c' h T = Some (Inl UnregisteredType)"
    if "\<exists>D \<in> set Args. \<not> registered nm c' D" and "acyclic_from nm c' T"
    using acyclic_from_returns_or_throws[OF that(2), of ord] 1[OF that(1)]
    by (metis surj_pair)
  have 3: "\<exists>v. resolve (Suc (Suc n)) nm ord (foldl (registerType nm) c' Args) h T = Some (Inr v)"
    if "nm T \<notin> nm ` set Args"
  proof (rule resolve_Suc_all_return)
    let ?c = "foldl (registerType nm) c' Args"
    from that f have f': "map_of (creators ?c) (nm T) = Some (CreatorWithDependencies T Args)"
      by (simp add: foldl_registerType_other)
    then show "registered nm ?c T" by (simp add: registered_def)
    fix h1 D assume "D \<in> set (dependencies nm ?c T)"
    with f' have "nm D \<in> nm ` set Args" by (simp add: dependencies_def)
    from foldl_registerType_find[OF this, of c'] obtain U
      where "map_of (creators ?c) (nm D) = Some (Creator U)" by blast
    then show "\<exists>v. resolve (Suc n) nm ord ?c h1 D = Some (Inr v)"
      by (simp add: resolve_Creator)
  qed
  from f o 1 2 3 show ?thesis by blast
qed

theorem registration_defers_resolution_witness:
  "(\<exists>D \<in> set [Model, View, Logger].
       \<not> registered itanium_name
           (registerTypeWithDependencies itanium_name DIContainer_new Controller [Model, View, Logger]) D)
   \<and> acyclic_from itanium_name
       (registerTypeWithDependencies itanium_name DIContainer_new Controller [Model, View, Logger])
       Controller
   \<and> itanium_name Controller \<notin> itanium_name ` set [Model, View, Logger]
   \<and> map_of (creators
        (registerTypeWithDependencies itanium_name DIContainer_new Controller [Model, View, Logger]))
        (itanium_name Controller)
      = Some (CreatorWithDependencies Controller [Model, View, Logger])
   \<and> (\<exists>n. resolve n itanium_name left_to_right
        (registerTypeWithDependencies itanium_name DIContainer_new Controller [Model, View, Logger])
        [] Controller = Some (Inl UnregisteredType))
   \<and> (\<exists>v. resolve (Suc (Suc 0)) itanium_name left_to_right
        (foldl (registerType itanium_name)
           (registerTypeWithDependencies itanium_name DIContainer_new Controller [Model, View, Logger])
           [Model, View, Logger])
        [] Controller = Some (Inr v))"
proof -
  let ?c = "registerTypeWithDependencies itanium_name DIContainer_new Controller [Model, View, Logger]"
  have f: "map_of (creators ?c) (itanium_name U) =
      (if U = Controller then Some (CreatorWithDependencies Controller [Model, View, Logger])
       else None)" for U
    using find_registerTypeWithDependencies[of itanium_name DIContainer_new Controller
        "[Model, View, Logger]" "itanium_name U"]
    by (simp only: inj_eq[OF inj_itanium_name]) (simp add: DIContainer_new_def)
  have 1: "\<exists>D \<in> set [Model, View, Logger]. \<not> registered itanium_name ?c D"
    using f[of Model] by (simp add: registered_def)
  have 2: "acyclic_from itanium_name ?c Controller"
    by (rule acyclic_from_rank[where rank = "\<lambda>U. if U = Controller then 1 else 0"])
       (auto simp: dependencies_def f split: if_splits)
  have 3: "itanium_name Controller \<notin> itanium_name ` set [Model, View, Logger]" by simp
  from 1 2 3 registration_defers_resolution[OF refl, of itanium_name DIContainer_new Controller
      "[Model, View, Logger]" left_to_right "[]" 0]
  show ?thesis by blast
qed

text \<open>
  C6.  The factory of \<open>registerTypeWithDependencies<T, Args...>\<close> resolves every
  dependency by a nested \<open>resolve\<close> on the same registry and then constructs \<open>T\<close>; the
  constructor receives, at position \<open>i\<close>, the instance resolved for the dependency
  declared at position \<open>i\<close>, whatever the order in which the compiler evaluated the
  calls.  When the compiler evaluates arguments left to right, the dependencies are
  resolved in declared order.
\<close>

theorem factory_resolves_then_constructs:
  "(map_of (creators c) (nm T) = Some (CreatorWithDependencies U Args)
      \<and> resolve (Suc n) nm ord c h T = Some (Inr (h', p)) \<longrightarrow>
      (\<exists>h2 args. h' = h2 @ [Object U args] \<and> p = Ptr (length h2) \<and> prefix h h2
         \<and> length args = length Args
         \<and> (\<forall>i < length Args. \<exists>ha hb. prefix h ha \<and> prefix hb h2 \<and>
               resolve n nm ord c ha (Args ! i) = Some (Inr (hb, args ! i)))))
   \<and> invoke r left_to_right h (CreatorWithDependencies U Args) =
       (case resolve_in_declared_order r h Args of
          None \<Rightarrow> None
        | Some (Inl e) \<Rightarrow> Some (Inl e)
        | Some (Inr (h2, ps)) \<Rightarrow> Some (Inr (make_shared h2 U ps)))"
proof (intro conjI impI)
  assume a: "map_of (creators c) (nm T) = Some (CreatorWithDependencies U Args)
      \<and> resolve (Suc n) nm ord c h T = Some (Inr (h', p))"
  from a have cr: "map_of (creators c) (nm T) = Some (CreatorWithDependencies U Args)"
    by (rule conjunct1)
  from a have res: "resolve (Suc n) nm ord c h T = Some (Inr (h', p))"
    by (rule conjunct2)
  from with_dependencies_object[OF cr res]
  show "\<exists>h2 args. h' = h2 @ [Object U args] \<and> p = Ptr (length h2) \<and> prefix h h2
         \<and> length args = length Args
         \<and> (\<forall>i < length Args. \<exists>ha hb. prefix h ha \<and> prefix hb h2 \<and>
               resolve n nm ord c ha (Args ! i) = Some (Inr (hb, args ! i)))" .
next
  show "invoke r left_to_right h (CreatorWithDependencies U Args) =
       (case resolve_in_declared_order r h Args of
          None \<Rightarrow> None
        | Some (Inl e) \<Rightarrow> Some (Inl e)
        | Some (Inr (h2, ps)) \<Rightarrow> Some (Inr (make_shared h2 U ps)))"
    by (simp add: resolve_args_left_to_right)
qed

theorem factory_resolves_then_constructs_witness:
  "map_of (creators (main_container itanium_name)) (itanium_name Controller)
      = Some (CreatorWithDependencies Controller [Model, View, Logger])
   \<and> resolve (Suc (Suc 0)) itanium_name right_to_left (main_container itanium_name) [] Controller
      = Some (Inr ([Object Logger [], Object View [], Object Model [],
                    Object Controller [Ptr 2, Ptr 1, Ptr 0]], Ptr 3))
   \<and> (\<exists>h2 args.
         [Object Logger [], Object View [], Object Model [],
          Object Controller [Ptr 2, Ptr 1, Ptr 0]] = h2 @ [Object Controller args]
       \<and> Ptr 3 = Ptr (length h2) \<and> length args = length [Model, View, Logger]
       \<and> (\<forall>i < length [Model, View, Logger]. \<exists>ha hb. prefix [] ha \<and> prefix hb h2 \<and>
             resolve (Suc 0) itanium_name right_to_left (main_container itanium_name) ha
               ([Model, View, Logger] ! i) = Some (Inr (hb, args ! i))))"
proof -
  have 1: "map_of (creators (main_container itanium_name)) (itanium_name Controller)
      = Some (CreatorWithDependencies Controller [Model, View, Logger])"
    using main_container_find[OF inj_itanium_name, of Controller] by simp
  have 2: "resolve (Suc (Suc 0)) itanium_name right_to_left (main_container itanium_name) []
      Controller
      = Some (Inr ([Object Logger [], Object View [], Object Model [],
                    Object Controller [Ptr 2, Ptr 1, Ptr 0]], Ptr 3))"
    by code_simp
  from factory_resolves_then_constructs[where nm = itanium_name and T = Controller
      and c = "main_container itanium_name" and h = "[]" and n = "Suc 0" and ord = right_to_left,
      THEN conjunct1, rule_format, OF conjI[OF 1 2]]
  obtain h2 args where
    "[Object Logger [], Object View [], Object Model [],
          Object Controller [Ptr 2, Ptr 1, Ptr 0]] = h2 @ [Object Controller args]"
    "Ptr 3 = Ptr (length h2)" "length args = length [Model, View, Logger]"
    "\<forall>i < length [Model, View, Logger]. \<exists>ha hb. prefix [] ha \<and> prefix hb h2 \<and>
             resolve (Suc 0) itanium_name right_to_left (main_container itanium_name) ha
               ([Model, View, Logger] ! i) = Some (Inr (hb, args ! i))"
    by blast
  then have "\<exists>h2 args.
         [Object Logger [], Object View [], Object Model [],
          Object Controller [Ptr 2, Ptr 1, Ptr 0]] = h2 @ [Object Controller args]
       \<and> Ptr 3 = Ptr (length h2) \<and> length args = length [Model, View, Logger]
       \<and> (\<forall>i < length [Model, View, Logger]. \<exists>ha hb. prefix [] ha \<and> prefix hb h2 \<and>
             resolve (Suc 0) itanium_name right_to_left (main_container itanium_name) ha
               ([Model, View, Logger] ! i) = Some (Inr (hb, args ! i)))"
    by (intro exI[of _ h2] exI[of _ args] conjI)
  with 1 2 show ?thesis by (intro conjI)
qed

text \<open>
  The order of the calls is the compiler's: evaluated right to left, \<open>Logger\<close> is resolved
  first and \<open>Model\<close> last, while the \<open>Controller\<close> still receives them as
  \<open>(Model, View, Logger)\<close>.
\<close>

theorem right_to_left_counterexample:
  "resolve_args (resolve (Suc 0) itanium_name right_to_left (main_container itanium_name))
       right_to_left [] [Model, View, Logger]
     = Some (Inr ([Object Logger [], Object View [], Object Model []], [Ptr 2, Ptr 1, Ptr 0]))
   \<and> resolve_in_declared_order
       (resolve (Suc 0) itanium_name right_to_left (main_container itanium_name))
       [] [Model, View, Logger]
     = Some (Inr ([Object Model [], Object View [], Object Logger []], [Ptr 0, Ptr 1, Ptr 2]))
   \<and> resolve (Suc (Suc 0)) itanium_name right_to_left (main_container itanium_name) [] Controller
     = Some (Inr ([Object Logger [], Object View [], Object Model [],
                   Object Controller [Ptr 2, Ptr 1, Ptr 0]], Ptr 3))"
proof (intro conjI)
  show "resolve_args (resolve (Suc 0) itanium_name right_to_left (main_container itanium_name))
       right_to_left [] [Model, View, Logger]
     = Some (Inr ([Object Logger [], Object View [], Object Model []], [Ptr 2, Ptr 1, Ptr 0]))"
    by code_simp
  show "resolve_in_declared_order
       (resolve (Suc 0) itanium_name right_to_left (main_container itanium_name))
       [] [Model, View, Logger]
     = Some (Inr ([Object Model [], Object View [], Object Logger []], [Ptr 0, Ptr 1, Ptr 2]))"
    by code_simp
  show "resolve (Suc (Suc 0)) itanium_name right_to_left (main_container itanium_name) []
       Controller
     = Some (Inr ([Object Logger [], Object View [], Object Model [],
                   Object Controller [Ptr 2, Ptr 1, Ptr 0]], Ptr 3))"
    by code_simp
qed




text \<open>
  C8.  When the key of \<open>T\<close> holds the factory that \<open>registerType<T>\<close> stored,
  \<open>resolve<T>\<close> returns a handle that is not null, to an object of class \<open>T\<close> that did
  not exist before the call.
\<close>

theorem resolve_registered_simple:
  assumes "map_of (creators c) (nm T) = Some (Creator T)"
  shows "resolve (Suc n) nm ord c h T = Some (Inr (h @ [Object T []], Ptr (length h)))
       \<and> Ptr (length h) \<noteq> Null
       \<and> (h @ [Object T []]) ! length h = Object T []"
  using assms by (simp add: make_shared_def)

theorem resolve_registered_simple_witness:
  "map_of (creators (registerType itanium_name DIContainer_new Logger)) (itanium_name Logger)
      = Some (Creator Logger)
   \<and> resolve (Suc 0) itanium_name left_to_right (registerType itanium_name DIContainer_new Logger)
        [] Logger = Some (Inr ([Object Logger []], Ptr 0))"
proof -
  have "map_of (creators (registerType itanium_name DIContainer_new Logger)) (itanium_name Logger)
      = Some (Creator Logger)"
    by (rule find_registerType_same)
  from this resolve_registered_simple[where nm = itanium_name and T = Logger
      and n = 0 and ord = left_to_right and h = "[]", OF this] show ?thesis
    by simp
qed




text \<open>
  C10.  The object that the factory of a type with dependencies returns holds handles to
  objects that did not exist before the call: each is newer than every object of the
  heap the call started on.  In \<open>main\<close>, the \<open>Model\<close>, \<open>View\<close> and \<open>Logger\<close> inside the
  resolved \<open>Controller\<close> are therefore other objects than those of the variables \<open>model\<close>,
  \<open>view\<close> and \<open>logger\<close>, for every order of evaluation and every injective naming.
\<close>

theorem controller_dependencies_are_fresh:
  "(map_of (creators c) (nm T) = Some (CreatorWithDependencies U Args)
      \<and> resolve n nm ord c h T = Some (Inr (h', p)) \<longrightarrow>
      (\<exists>a args. p = Ptr a \<and> length h \<le> a \<and> a < length h' \<and> h' ! a = Object U args
         \<and> length args = length Args
         \<and> (\<forall>i < length Args. \<exists>b. args ! i = Ptr b \<and> length h \<le> b \<and> b < a)))
   \<and> (inj nm' \<longrightarrow>
      (\<exists>hp l a bm bv bl.
          main (Suc (Suc k)) nm' ord' = Some (Inr (hp, l))
        \<and> logger l = Ptr 1 \<and> model l = Ptr 2 \<and> view l = Ptr 3
        \<and> hp ! 1 = Object Logger [] \<and> hp ! 2 = Object Model [] \<and> hp ! 3 = Object View []
        \<and> controller l = Ptr a \<and> hp ! a = Object Controller [Ptr bm, Ptr bv, Ptr bl]
        \<and> hp ! bm = Object Model [] \<and> hp ! bv = Object View [] \<and> hp ! bl = Object Logger []
        \<and> Ptr bm \<noteq> model l \<and> Ptr bv \<noteq> view l \<and> Ptr bl \<noteq> logger l
        \<and> 4 \<le> bm \<and> 4 \<le> bv \<and> 4 \<le> bl))"
proof (intro conjI impI)
  assume a: "map_of (creators c) (nm T) = Some (CreatorWithDependencies U Args)
      \<and> resolve n nm ord c h T = Some (Inr (h', p))"
  from a have cr: "map_of (creators c) (nm T) = Some (CreatorWithDependencies U Args)"
    by (rule conjunct1)
  from a have res: "resolve n nm ord c h T = Some (Inr (h', p))"
    by (rule conjunct2)
  from with_dependencies_fresh[OF cr res]
  show "\<exists>a args. p = Ptr a \<and> length h \<le> a \<and> a < length h' \<and> h' ! a = Object U args
         \<and> length args = length Args
         \<and> (\<forall>i < length Args. \<exists>b. args ! i = Ptr b \<and> length h \<le> b \<and> b < a)" .
next
  assume inj: "inj nm'"
  let ?h4 = "[Object Configuration [], Object Logger [], Object Model [], Object View []]"
  from main_container_resolve_returns[OF inj, of k ord' ?h4 Controller]
  obtain h5 p5 where
    res: "resolve (Suc (Suc k)) nm' ord' (main_container nm') ?h4 Controller = Some (Inr (h5, p5))"
    by auto
  let ?l = "\<lparr>config = Ptr 0, logger = Ptr 1, model = Ptr 2, view = Ptr 3, controller = p5\<rparr>"
  have m: "main (Suc (Suc k)) nm' ord' = Some (Inr (h5, ?l))"
    by (simp only: main_after_four[OF inj] res option.case sum.case prod.case)
  from main_controller_dependencies[OF inj res]
  obtain h2 bm bv bl where h5: "h5 = h2 @ [Object Controller [Ptr bm, Ptr bv, Ptr bl]]"
    and p5: "p5 = Ptr (length h2)" and pre: "prefix ?h4 h2"
    and bm: "length ?h4 \<le> bm" "bm < length h2" "h2 ! bm = Object Model []"
    and bv: "length ?h4 \<le> bv" "bv < length h2" "h2 ! bv = Object View []"
    and bl: "length ?h4 \<le> bl" "bl < length h2" "h2 ! bl = Object Logger []"
    by blast
  from pre obtain zs where h2: "h2 = ?h4 @ zs" by (auto simp: prefix_def)
  have old: "h5 ! 1 = Object Logger []" "h5 ! 2 = Object Model []" "h5 ! 3 = Object View []"
    by (simp_all add: h5 h2)
  have new: "h5 ! bm = Object Model []" "h5 ! bv = Object View []" "h5 ! bl = Object Logger []"
    using bm bv bl by (simp_all add: h5 nth_append)
  have ctl: "h5 ! length h2 = Object Controller [Ptr bm, Ptr bv, Ptr bl]"
    by (simp add: h5)
  from bm(1) bv(1) bl(1) have four: "4 \<le> bm" "4 \<le> bv" "4 \<le> bl" by simp_all
  then have ne: "Ptr bm \<noteq> model ?l" "Ptr bv \<noteq> view ?l" "Ptr bl \<noteq> logger ?l" by simp_all
  have l: "logger ?l = Ptr 1" "model ?l = Ptr 2" "view ?l = Ptr 3" "controller ?l = Ptr (length h2)"
    by (simp_all add: p5)
  from m l old ctl new ne four
  show "\<exists>hp l a bm bv bl.
          main (Suc (Suc k)) nm' ord' = Some (Inr (hp, l))
        \<and> logger l = Ptr 1 \<and> model l = Ptr 2 \<and> view l = Ptr 3
        \<and> hp ! 1 = Object Logger [] \<and> hp ! 2 = Object Model [] \<and> hp ! 3 = Object View []
        \<and> controller l = Ptr a \<and> hp ! a = Object Controller [Ptr bm, Ptr bv, Ptr bl]
        \<and> hp ! bm = Object Model [] \<and> hp ! bv = Object View [] \<and> hp ! bl = Object Logger []
        \<and> Ptr bm \<noteq> model l \<and> Ptr bv \<noteq> view l \<and> Ptr bl \<noteq> logger l
        \<and> 4 \<le> bm \<and> 4 \<le> bv \<and> 4 \<le> bl"
    by (intro exI[of _ h5] exI[of _ ?l] exI[of _ "length h2"] exI[of _ bm] exI[of _ bv]
        exI[of _ bl] conjI)
qed

theorem controller_dependencies_are_fresh_witness:
  "map_of (creators (main_container itanium_name)) (itanium_name Controller)
      = Some (CreatorWithDependencies Controller [Model, View, Logger])
   \<and> resolve 2 itanium_name left_to_right (main_container itanium_name)
        [Object Configuration [], Object Logger [], Object Model [], Object View []] Controller
      = Some (Inr ([Object Configuration [], Object Logger [], Object Model [], Object View [],
                    Object Model [], Object View [], Object Logger [],
                    Object Controller [Ptr 4, Ptr 5, Ptr 6]], Ptr 7))
   \<and> inj itanium_name
   \<and> (\<exists>hp l a bm bv bl.
          main (Suc (Suc 0)) itanium_name left_to_right = Some (Inr (hp, l))
        \<and> logger l = Ptr 1 \<and> model l = Ptr 2 \<and> view l = Ptr 3
        \<and> controller l = Ptr a \<and> hp ! a = Object Controller [Ptr bm, Ptr bv, Ptr bl]
        \<and> Ptr bm \<noteq> model l \<and> Ptr bv \<noteq> view l \<and> Ptr bl \<noteq> logger l)
   \<and> (\<exists>a args. Ptr 7 = Ptr a
         \<and> length [Object Configuration [], Object Logger [], Object Model [], Object View []]
             \<le> a
         \<and> length args = length [Model, View, Logger]
         \<and> (\<forall>i < length [Model, View, Logger]. \<exists>b. args ! i = Ptr b
               \<and> length [Object Configuration [], Object Logger [], Object Model [],
                         Object View []] \<le> b
               \<and> b < a))"
proof -
  let ?h4 = "[Object Configuration [], Object Logger [], Object Model [], Object View []]"
  let ?h8 = "[Object Configuration [], Object Logger [], Object Model [], Object View [],
                    Object Model [], Object View [], Object Logger [],
                    Object Controller [Ptr 4, Ptr 5, Ptr 6]]"
  have 1: "map_of (creators (main_container itanium_name)) (itanium_name Controller)
      = Some (CreatorWithDependencies Controller [Model, View, Logger])"
    using main_container_find[OF inj_itanium_name, of Controller] by simp
  have 2: "resolve 2 itanium_name left_to_right (main_container itanium_name) ?h4 Controller
      = Some (Inr (?h8, Ptr 7))"
    by code_simp
  note t = controller_dependencies_are_fresh[where c = "main_container itanium_name"
      and nm = itanium_name and T = Controller and U = Controller
      and Args = "[Model, View, Logger]" and n = 2 and ord = left_to_right and h = ?h4
      and h' = ?h8 and p = "Ptr 7" and nm' = itanium_name and k = 0 and ord' = left_to_right]
  from t[THEN conjunct1, rule_format, OF conjI[OF 1 2]]
  obtain a args where a: "Ptr 7 = Ptr a" "length ?h4 \<le> a" "length args = length [Model, View, Logger]"
    "\<forall>i < length [Model, View, Logger]. \<exists>b. args ! i = Ptr b \<and> length ?h4 \<le> b \<and> b < a"
    by blast
  then have A: "\<exists>a args. Ptr 7 = Ptr a \<and> length ?h4 \<le> a
         \<and> length args = length [Model, View, Logger]
         \<and> (\<forall>i < length [Model, View, Logger]. \<exists>b. args ! i = Ptr b
               \<and> length ?h4 \<le> b \<and> b < a)"
    by (intro exI[of _ a] exI[of _ args] conjI)
  from t[THEN conjunct2, rule_format, OF inj_itanium_name]
  obtain hp l a bm bv bl where
    "main (Suc (Suc 0)) itanium_name left_to_right = Some (Inr (hp, l))"
    "logger l = Ptr 1" "model l = Ptr 2" "view l = Ptr 3"
    "controller l = Ptr a" "hp ! a = Object Controller [Ptr bm, Ptr bv, Ptr bl]"
    "Ptr bm \<noteq> model l" "Ptr bv \<noteq> view l" "Ptr bl \<noteq> logger l"
    by blast
  then have B: "\<exists>hp l a bm bv bl.
          main (Suc (Suc 0)) itanium_name left_to_right = Some (Inr (hp, l))
        \<and> logger l = Ptr 1 \<and> model l = Ptr 2 \<and> view l = Ptr 3
        \<and> controller l = Ptr a \<and> hp ! a = Object Controller [Ptr bm, Ptr bv, Ptr bl]
        \<and> Ptr bm \<noteq> model l \<and> Ptr bv \<noteq> view l \<and> Ptr bl \<noteq> logger l"
    by (intro exI[of _ hp] exI[of _ l] exI[of _ a] exI[of _ bm] exI[of _ bv] exI[of _ bl] conjI)
  from 1 2 inj_itanium_name B A show ?thesis by (intro conjI)
qed

end
